theory Spec2Isabelle
  imports Complex_Main
begin

section \<open>Coupled logistic maps on a directed graph\<close>

text \<open>
  A shallow embedding of \<^verbatim>\<open>coupledlogistic/coupledlogistic.py\<close>: the function
  \<^verbatim>\<open>coupledlogistic(tslength, r, A, sigma, couplingtype)\<close>, its two nested engines
  \<^verbatim>\<open>diffusivecalc\<close> and \<^verbatim>\<open>kanekocalc\<close>, and the normalisation \<^verbatim>\<open>normal\<close>.

  Conventions of the model.
  \<^item> A floating-point value is a finite real number, one of the two infinities, or the
    not-a-number. An operation on finite operands yields the rounding of the exact
    result. The rounding is a parameter \<open>fl\<close> of every function that computes: \<open>fl x\<close> is
    the double that stands for the real number \<open>x\<close>, an infinity when \<open>x\<close> is beyond the
    range of the doubles. The rounding of the code is \<open>double\<close>, the rounding to the
    nearest binary64 number with ties to the even mantissa; \<open>exact\<close>, which rounds
    nothing, serves to write the formulas of the specification, which are formulas over
    the real numbers. A theorem that has \<open>fl\<close> free holds for every rounding, under the
    hypothesis \<open>rounding fl\<close> where it needs the properties of IEEE rounding, which \<open>double\<close>
    is proved to have; the examples are computed with \<open>double\<close>. The special values follow
    IEEE 754: the not-a-number is absorbing and compares unequal to everything, itself
    included. The sign of a zero is not modelled: the program compares with zero by \<^verbatim>\<open>==\<close>
    only, and where it divides by a zero, the zero is a difference \<open>x - x\<close>, which is \<open>+0\<close>.
  \<^item> Every exception of the Python code is a value \<open>Inl e\<close> of the result.
  \<^item> The generator \<^verbatim>\<open>np.random.random\<close> is a parameter \<open>rnd\<close>: \<open>rnd c k\<close> is the draw for
    node \<open>k\<close> in the attempt that the loop counts as \<open>c\<close>.
  \<^item> Printing (the progress dots and the retry messages) has no effect on the values and
    is left out; \<^verbatim>\<open>verbose\<close> is therefore no parameter of the model.
  \<^item> \<^verbatim>\<open>tslength\<close> is the integer that \<^verbatim>\<open>int(tslength)\<close> yields, and the adjacency matrix is
    the list of rows handed to \<^verbatim>\<open>np.array\<close>.
  \<^item> \<^verbatim>\<open>diffusivecalc\<close> and \<^verbatim>\<open>kanekocalc\<close> are the same text but for the line that adds to
    \<^verbatim>\<open>sumterm\<close>; the model writes their three loops once, with the computation of
    \<^verbatim>\<open>out[n+1,k]\<close> as a parameter.
\<close>

subsection \<open>Floating-point values\<close>

datatype fval = Num real | PInf | NInf | NaN

type_synonym rounding = "real \<Rightarrow> fval"

definition signed_inf :: "real \<Rightarrow> fval" where
  "signed_inf s = (if s = 0 then NaN else if 0 < s then PInf else NInf)"

text \<open>The sum \<^verbatim>\<open>a + b\<close>.\<close>

fun fadd :: "rounding \<Rightarrow> fval \<Rightarrow> fval \<Rightarrow> fval" where
  "fadd fl (Num a) (Num b) = fl (a + b)"
| "fadd fl NaN _ = NaN"
| "fadd fl _ NaN = NaN"
| "fadd fl PInf NInf = NaN"
| "fadd fl NInf PInf = NaN"
| "fadd fl PInf _ = PInf"
| "fadd fl _ PInf = PInf"
| "fadd fl NInf _ = NInf"
| "fadd fl _ NInf = NInf"

fun fneg :: "fval \<Rightarrow> fval" where
  "fneg (Num a) = Num (- a)"
| "fneg PInf = NInf"
| "fneg NInf = PInf"
| "fneg NaN = NaN"

text \<open>The difference \<^verbatim>\<open>a - b\<close>, which IEEE 754 defines as \<open>a + (- b)\<close>.\<close>

definition fsub :: "rounding \<Rightarrow> fval \<Rightarrow> fval \<Rightarrow> fval" where
  "fsub fl a b = fadd fl a (fneg b)"

text \<open>The product \<^verbatim>\<open>a * b\<close>.\<close>

fun fmul :: "rounding \<Rightarrow> fval \<Rightarrow> fval \<Rightarrow> fval" where
  "fmul fl (Num a) (Num b) = fl (a * b)"
| "fmul fl NaN _ = NaN"
| "fmul fl _ NaN = NaN"
| "fmul fl PInf (Num b) = signed_inf b"
| "fmul fl NInf (Num b) = signed_inf (- b)"
| "fmul fl (Num a) PInf = signed_inf a"
| "fmul fl (Num a) NInf = signed_inf (- a)"
| "fmul fl PInf PInf = PInf"
| "fmul fl NInf NInf = PInf"
| "fmul fl PInf NInf = NInf"
| "fmul fl NInf PInf = NInf"

text \<open>The quotient \<^verbatim>\<open>a / b\<close> of numpy (no exception; a zero divisor counts as \<open>+0\<close>).\<close>

fun fdiv :: "rounding \<Rightarrow> fval \<Rightarrow> fval \<Rightarrow> fval" where
  "fdiv fl (Num a) (Num b) = (if b = 0 then signed_inf a else fl (a / b))"
| "fdiv fl NaN _ = NaN"
| "fdiv fl _ NaN = NaN"
| "fdiv fl (Num a) PInf = Num 0"
| "fdiv fl (Num a) NInf = Num 0"
| "fdiv fl PInf (Num b) = (if b < 0 then NInf else PInf)"
| "fdiv fl NInf (Num b) = (if b < 0 then PInf else NInf)"
| "fdiv fl PInf PInf = NaN"
| "fdiv fl PInf NInf = NaN"
| "fdiv fl NInf PInf = NaN"
| "fdiv fl NInf NInf = NaN"

text \<open>The comparisons \<^verbatim>\<open>==\<close>, \<^verbatim>\<open><\<close> and \<^verbatim>\<open>>\<close>: each is false as soon as one side is
  the not-a-number.\<close>

fun feq :: "fval \<Rightarrow> fval \<Rightarrow> bool" where
  "feq (Num a) (Num b) = (a = b)"
| "feq PInf PInf = True"
| "feq NInf NInf = True"
| "feq _ _ = False"

fun flt :: "fval \<Rightarrow> fval \<Rightarrow> bool" where
  "flt (Num a) (Num b) = (a < b)"
| "flt NInf (Num b) = True"
| "flt NInf PInf = True"
| "flt (Num a) PInf = True"
| "flt _ _ = False"

definition fgt :: "fval \<Rightarrow> fval \<Rightarrow> bool" where
  "fgt a b = flt b a"

text \<open>
  The rounding of binary64 (53 bits of mantissa, exponents from \<open>-1022\<close> to \<open>1023\<close>) to the
  nearest, ties to even. \<open>ulp_exp x\<close> is the exponent of the unit in the last place of the
  binade of \<open>x\<close>, which is \<open>-1074\<close> for the subnormal numbers; \<open>nearest x\<close> is the multiple of
  that unit nearest to \<open>x\<close>; a result of magnitude \<open>2\<^sup>1\<^sup>0\<^sup>2\<^sup>4\<close> or more overflows.
\<close>

definition round_even :: "real \<Rightarrow> int" where
  "round_even m =
     (if m - of_int \<lfloor>m\<rfloor> < 1 / 2 then \<lfloor>m\<rfloor>
      else if 1 / 2 < m - of_int \<lfloor>m\<rfloor> then \<lfloor>m\<rfloor> + 1
      else if even \<lfloor>m\<rfloor> then \<lfloor>m\<rfloor> else \<lfloor>m\<rfloor> + 1)"

definition ulp_exp :: "real \<Rightarrow> int" where
  "ulp_exp x = max \<lfloor>log 2 \<bar>x\<bar>\<rfloor> (- 1022) - 52"

definition nearest :: "real \<Rightarrow> real" where
  "nearest x =
     of_int (round_even (x / 2 powr of_int (ulp_exp x))) * 2 powr of_int (ulp_exp x)"

definition double :: rounding where
  "double x =
     (if x = 0 then Num 0
      else if 2 ^ 1024 \<le> nearest x then PInf
      else if nearest x \<le> - (2 ^ 1024) then NInf
      else Num (nearest x))"

text \<open>
  Arithmetic without rounding, and the properties of a rounding that some theorems
  need: zero and one are doubles, the rounding of a real number is no not-a-number, a
  double rounds to itself, and rounding is monotone. Both \<open>double\<close> and \<open>exact\<close> have them.
\<close>

definition exact :: rounding where
  "exact a = Num a"

definition rounding :: "rounding \<Rightarrow> bool" where
  "rounding fl \<longleftrightarrow>
     fl 0 = Num 0 \<and> fl 1 = Num 1 \<and> (\<forall>a. fl a \<noteq> NaN)
     \<and> (\<forall>a c. fl a = Num c \<longrightarrow> fl c = Num c)
     \<and> (\<forall>a b. a \<le> b \<longrightarrow> flt (fl a) (fl b) \<or> feq (fl a) (fl b))"

text \<open>A finite value, and a finite value that is a double.\<close>

fun is_num :: "fval \<Rightarrow> bool" where
  "is_num (Num a) = True"
| "is_num _ = False"

fun is_double :: "rounding \<Rightarrow> fval \<Rightarrow> bool" where
  "is_double fl (Num a) = (fl a = Num a)"
| "is_double fl _ = False"

subsection \<open>Data of a call\<close>

type_synonym row = "fval list"
type_synonym table = "fval list list"
type_synonym adjacency = "int list list"

datatype error = IndexError | ValueError | TypeError | OverflowError | UnboundLocalError

text \<open>
  The argument \<^verbatim>\<open>r\<close>: a Python \<^verbatim>\<open>int\<close>, a Python \<^verbatim>\<open>float\<close>, a scalar of any other type (a
  numpy scalar, a \<^verbatim>\<open>bool\<close>), or a sequence.
\<close>

datatype rparam = RInt int | RFloat fval | ROther | RSeq "fval list"

text \<open>\<^verbatim>\<open>A[l,k]\<close> on the two-dimensional array: an index outside the array raises.\<close>

definition A_at :: "adjacency \<Rightarrow> nat \<Rightarrow> nat \<Rightarrow> error + int" where
  "A_at A l k =
     (if l < length A \<and> k < length (A ! l) then Inr (A ! l ! k) else Inl IndexError)"

subsection \<open>One node, one step\<close>

text \<open>The loop \<^verbatim>\<open>for l in range(nonodes)\<close> of \<^verbatim>\<open>diffusivecalc\<close>, on the row \<open>x = out[n,:]\<close>.\<close>

fun diffusive_sum ::
  "rounding \<Rightarrow> adjacency \<Rightarrow> row \<Rightarrow> nat \<Rightarrow> nat list \<Rightarrow> fval \<Rightarrow> nat \<Rightarrow> error + fval \<times> nat" where
  "diffusive_sum fl A x k [] sumterm deg = Inr (sumterm, deg)"
| "diffusive_sum fl A x k (l # ls) sumterm deg =
     (case A_at A l k of
        Inl e \<Rightarrow> Inl e
      | Inr a \<Rightarrow>
          if a = 1
          then diffusive_sum fl A x k ls (fsub fl (fadd fl sumterm (x ! l)) (x ! k)) (deg + 1)
          else diffusive_sum fl A x k ls sumterm deg)"

text \<open>The same loop of \<^verbatim>\<open>kanekocalc\<close>; it reads \<^verbatim>\<open>r[k]\<close> for every predecessor.\<close>

fun kaneko_sum ::
  "rounding \<Rightarrow> adjacency \<Rightarrow> row \<Rightarrow> row \<Rightarrow> nat \<Rightarrow> nat list \<Rightarrow> fval \<Rightarrow> nat
     \<Rightarrow> error + fval \<times> nat" where
  "kaneko_sum fl A r x k [] sumterm deg = Inr (sumterm, deg)"
| "kaneko_sum fl A r x k (l # ls) sumterm deg =
     (case A_at A l k of
        Inl e \<Rightarrow> Inl e
      | Inr a \<Rightarrow>
          if a = 1 then
            (if k < length r
             then kaneko_sum fl A r x k ls
                    (fadd fl sumterm
                       (fmul fl (fmul fl (r ! k) (x ! l)) (fsub fl (Num 1) (x ! l))))
                    (deg + 1)
             else Inl IndexError)
          else kaneko_sum fl A r x k ls sumterm deg)"

text \<open>The branch \<^verbatim>\<open>if deg[k]>0: ... else: ...\<close> computing \<^verbatim>\<open>out[n+1,k]\<close>.\<close>

definition next_value ::
  "rounding \<Rightarrow> row \<Rightarrow> fval \<Rightarrow> row \<Rightarrow> nat \<Rightarrow> fval \<Rightarrow> nat \<Rightarrow> error + fval" where
  "next_value fl r sigma x k sumterm deg =
     (if k < length r then
        Inr (if deg > 0
             then fadd fl
                    (fmul fl (fmul fl (fmul fl (fsub fl (Num 1) sigma) (r ! k)) (x ! k))
                       (fsub fl (Num 1) (x ! k)))
                    (fmul fl sigma (fdiv fl sumterm (Num (real deg))))
             else fmul fl (fmul fl (r ! k) (x ! k)) (fsub fl (Num 1) (x ! k)))
      else Inl IndexError)"

definition diffusive_node ::
  "rounding \<Rightarrow> adjacency \<Rightarrow> row \<Rightarrow> fval \<Rightarrow> nat \<Rightarrow> row \<Rightarrow> nat \<Rightarrow> error + fval" where
  "diffusive_node fl A r sigma nonodes x k =
     (case diffusive_sum fl A x k [0..<nonodes] (Num 0) 0 of
        Inl e \<Rightarrow> Inl e
      | Inr (sumterm, deg) \<Rightarrow> next_value fl r sigma x k sumterm deg)"

definition kaneko_node ::
  "rounding \<Rightarrow> adjacency \<Rightarrow> row \<Rightarrow> fval \<Rightarrow> nat \<Rightarrow> row \<Rightarrow> nat \<Rightarrow> error + fval" where
  "kaneko_node fl A r sigma nonodes x k =
     (case kaneko_sum fl A r x k [0..<nonodes] (Num 0) 0 of
        Inl e \<Rightarrow> Inl e
      | Inr (sumterm, deg) \<Rightarrow> next_value fl r sigma x k sumterm deg)"

subsection \<open>The loops over nodes, time steps and attempts\<close>

text \<open>
  The loop \<^verbatim>\<open>for k in range(nonodes)\<close>: \<open>upd x k\<close> computes \<^verbatim>\<open>out[n+1,k]\<close> from the row
  \<open>x = out[n,:]\<close>, \<open>new\<close> is the row \<^verbatim>\<open>out[n+1,:]\<close> being written, \<open>temp\<close> the flag of
  the attempt. Both \<^verbatim>\<open>break\<close> statements leave this loop only.
\<close>

fun node_loop ::
  "(row \<Rightarrow> nat \<Rightarrow> error + fval) \<Rightarrow> row \<Rightarrow> nat list \<Rightarrow> row \<Rightarrow> bool \<Rightarrow> error + row \<times> bool" where
  "node_loop upd x [] new temp = Inr (new, temp)"
| "node_loop upd x (k # ks) new temp =
     (case upd x k of
        Inl e \<Rightarrow> Inl e
      | Inr v \<Rightarrow>
          if feq v NaN then Inr (new[k := v], True)
          else if feq v (Num 0) \<and> feq (x ! k) (Num 0) then Inr (new[k := v], True)
          else node_loop upd x ks (new[k := v]) temp)"

text \<open>The loop \<^verbatim>\<open>for n in range(tslength+10000)\<close> on the buffer \<open>out\<close>.\<close>

fun time_loop ::
  "(row \<Rightarrow> nat \<Rightarrow> error + fval) \<Rightarrow> nat \<Rightarrow> nat list \<Rightarrow> table \<Rightarrow> bool \<Rightarrow> error + table \<times> bool" where
  "time_loop upd nonodes [] out temp = Inr (out, temp)"
| "time_loop upd nonodes (n # ns) out temp =
     (case node_loop upd (out ! n) [0..<nonodes] (out ! (n + 1)) temp of
        Inl e \<Rightarrow> Inl e
      | Inr (new, temp') \<Rightarrow> time_loop upd nonodes ns (out[n + 1 := new]) temp')"

text \<open>
  \<^verbatim>\<open>out=np.full([tslength+10001,nonodes],np.nan); out[0,:]=np.random.random(nonodes)\<close>:
  a negative number of rows is refused by \<^verbatim>\<open>np.full\<close>, and a buffer without rows has no
  row 0.
\<close>

definition alloc :: "int \<Rightarrow> nat \<Rightarrow> (nat \<Rightarrow> real) \<Rightarrow> error + table" where
  "alloc tslength nonodes draw =
     (if tslength + 10001 < 0 then Inl ValueError
      else if tslength + 10001 = 0 then Inl IndexError
      else Inr ((replicate (nat (tslength + 10001)) (replicate nonodes NaN))
                  [0 := map (\<lambda>k. Num (draw k)) [0..<nonodes]]))"

text \<open>
  One pass of the body of \<^verbatim>\<open>while cond\<close> up to the end of the loop over \<open>n\<close>: a new
  buffer, a new initial row, \<^verbatim>\<open>temp=0\<close>, and all time steps.
\<close>

definition attempt ::
  "(row \<Rightarrow> nat \<Rightarrow> error + fval) \<Rightarrow> int \<Rightarrow> nat \<Rightarrow> (nat \<Rightarrow> real) \<Rightarrow> error + table \<times> bool" where
  "attempt upd tslength nonodes draw =
     (case alloc tslength nonodes draw of
        Inl e \<Rightarrow> Inl e
      | Inr out0 \<Rightarrow> time_loop upd nonodes [0..<nat (tslength + 10000)] out0 False)"

text \<open>
  The loop \<^verbatim>\<open>while cond\<close>, entered with the value \<open>count\<close> of the counter. The result is
  the buffer together with the final values of \<^verbatim>\<open>count\<close> and \<^verbatim>\<open>temp\<close>.
\<close>

function calc_loop ::
  "(row \<Rightarrow> nat \<Rightarrow> error + fval) \<Rightarrow> int \<Rightarrow> nat \<Rightarrow> (nat \<Rightarrow> nat \<Rightarrow> real) \<Rightarrow> nat
     \<Rightarrow> error + table \<times> nat \<times> bool" where
  "calc_loop upd tslength nonodes rnd count =
     (case attempt upd tslength nonodes (rnd (count + 1)) of
        Inl e \<Rightarrow> Inl e
      | Inr (out, temp) \<Rightarrow>
          if \<not> temp then Inr (out, count + 1, temp)
          else if count + 1 > 10 then Inr (out, count + 1, temp)
          else calc_loop upd tslength nonodes rnd (count + 1))"
  by pat_completeness auto
termination
  by (relation "measure (\<lambda>(upd, tslength, nonodes, rnd, count). 11 - count)") auto

definition diffusivecalc ::
  "rounding \<Rightarrow> int \<Rightarrow> row \<Rightarrow> adjacency \<Rightarrow> fval \<Rightarrow> nat \<Rightarrow> (nat \<Rightarrow> nat \<Rightarrow> real)
     \<Rightarrow> error + table" where
  "diffusivecalc fl tslength r A sigma nonodes rnd =
     map_sum id fst (calc_loop (diffusive_node fl A r sigma nonodes) tslength nonodes rnd 0)"

definition kanekocalc ::
  "rounding \<Rightarrow> int \<Rightarrow> row \<Rightarrow> adjacency \<Rightarrow> fval \<Rightarrow> nat \<Rightarrow> (nat \<Rightarrow> nat \<Rightarrow> real)
     \<Rightarrow> error + table" where
  "kanekocalc fl tslength r A sigma nonodes rnd =
     map_sum id fst (calc_loop (kaneko_node fl A r sigma nonodes) tslength nonodes rnd 0)"

subsection \<open>Normalisation\<close>

text \<open>
  Python's built-in \<^verbatim>\<open>min\<close> and \<^verbatim>\<open>max\<close> on a column: the first element is kept until a
  later one compares smaller (greater); an empty column raises \<^verbatim>\<open>ValueError\<close>.
\<close>

fun pymin :: "row \<Rightarrow> error + fval" where
  "pymin [] = Inl ValueError"
| "pymin (v # vs) = Inr (fold (\<lambda>w m. if flt w m then w else m) vs v)"

fun pymax :: "row \<Rightarrow> error + fval" where
  "pymax [] = Inl ValueError"
| "pymax (v # vs) = Inr (fold (\<lambda>w m. if fgt w m then w else m) vs v)"

definition normal :: "rounding \<Rightarrow> row \<Rightarrow> error + row" where
  "normal fl x =
     (case pymin x of
        Inl e \<Rightarrow> Inl e
      | Inr mn \<Rightarrow>
          (case pymax x of
             Inl e \<Rightarrow> Inl e
           | Inr mx \<Rightarrow> Inr (map (\<lambda>v. fdiv fl (fsub fl v mn) (fsub fl mx mn)) x)))"

text \<open>\<^verbatim>\<open>for i in range(nonodes): out[:,i]=normal(out[:,i])\<close>.\<close>

fun normalize_cols :: "rounding \<Rightarrow> nat list \<Rightarrow> table \<Rightarrow> error + table" where
  "normalize_cols fl [] out = Inr out"
| "normalize_cols fl (i # is) out =
     (case normal fl (map (\<lambda>rw. rw ! i) out) of
        Inl e \<Rightarrow> Inl e
      | Inr col \<Rightarrow> normalize_cols fl is (map2 (\<lambda>rw v. rw[i := v]) out col))"

text \<open>The cut \<^verbatim>\<open>out=out[10002:,:]\<close> followed by the normalisation of every column.\<close>

definition postprocess :: "rounding \<Rightarrow> nat \<Rightarrow> table \<Rightarrow> error + table" where
  "postprocess fl nonodes out = normalize_cols fl [0..<nonodes] (drop 10002 out)"

subsection \<open>The function \<^verbatim>\<open>coupledlogistic\<close>\<close>

text \<open>
  \<^verbatim>\<open>np.array(A)\<close> on rows of unequal lengths gives no two-dimensional array
  (\<^verbatim>\<open>ValueError\<close>).
\<close>

definition ragged :: "adjacency \<Rightarrow> bool" where
  "ragged A = (\<exists>rw \<in> set A. length rw \<noteq> length (hd A))"

text \<open>
  Lines 83 to 86. \<^verbatim>\<open>type(r)==int or type(r)==float\<close> holds of a Python \<^verbatim>\<open>int\<close> and of a
  Python \<^verbatim>\<open>float\<close>, and \<^verbatim>\<open>r\<close> becomes \<^verbatim>\<open>np.ones(nonodes)*r\<close>; the product turns an \<^verbatim>\<open>int\<close> into
  the nearest double and raises \<^verbatim>\<open>OverflowError\<close> for an \<^verbatim>\<open>int\<close> beyond the range of the
  doubles. Every other argument goes on to \<^verbatim>\<open>len(r)\<close>, which raises \<^verbatim>\<open>TypeError\<close> for a
  scalar. A sequence of length 1 is spread over the nodes as \<^verbatim>\<open>np.ones(nonodes)*r[0]\<close>; any
  other sequence is kept as it is.
\<close>

fun resolve_r :: "rounding \<Rightarrow> rparam \<Rightarrow> nat \<Rightarrow> error + row" where
  "resolve_r fl (RInt i) nonodes =
     (if is_num (fl (of_int i))
      then Inr (replicate nonodes (fmul fl (Num 1) (fl (of_int i))))
      else Inl OverflowError)"
| "resolve_r fl (RFloat v) nonodes = Inr (replicate nonodes (fmul fl (Num 1) v))"
| "resolve_r fl ROther nonodes = Inl TypeError"
| "resolve_r fl (RSeq vs) nonodes =
     Inr (if length vs = 1 then replicate nonodes (fmul fl (Num 1) (vs ! 0)) else vs)"

definition coupledlogistic ::
  "rounding \<Rightarrow> int \<Rightarrow> rparam \<Rightarrow> adjacency \<Rightarrow> fval \<Rightarrow> string \<Rightarrow> (nat \<Rightarrow> nat \<Rightarrow> real)
     \<Rightarrow> error + table" where
  "coupledlogistic fl tslength r A sigma couplingtype rnd =
     (if ragged A then Inl ValueError
      else if length A < 2 then Inl IndexError
      else
        let nonodes = length (A ! 1) in
        case resolve_r fl r nonodes of
          Inl e \<Rightarrow> Inl e
        | Inr r' \<Rightarrow>
            (case (if couplingtype = ''diffusive''
                   then diffusivecalc fl tslength r' A sigma nonodes rnd
                   else if couplingtype = ''kaneko''
                   then kanekocalc fl tslength r' A sigma nonodes rnd
                   else Inl UnboundLocalError) of
               Inl e \<Rightarrow> Inl e
             | Inr out \<Rightarrow> postprocess fl nonodes out))"

subsection \<open>Notions of the specification\<close>

text \<open>The logistic map \<open>f(x) = r\<cdot>x\<cdot>(1 - x)\<close>, computed as the code writes it.\<close>

definition logistic :: "rounding \<Rightarrow> fval \<Rightarrow> fval \<Rightarrow> fval" where
  "logistic fl rk x = fmul fl (fmul fl rk x) (fsub fl (Num 1) x)"

text \<open>The predecessors of node \<open>k\<close>, in increasing order, and its in-degree.\<close>

definition preds :: "adjacency \<Rightarrow> nat \<Rightarrow> nat \<Rightarrow> nat list" where
  "preds A nonodes k = filter (\<lambda>l. A ! l ! k = 1) [0..<nonodes]"

definition indeg :: "adjacency \<Rightarrow> nat \<Rightarrow> nat \<Rightarrow> nat" where
  "indeg A nonodes k = length (preds A nonodes k)"

datatype CouplingScheme = Diffusive | Kaneko

text \<open>The engine of a scheme, and the string that selects it.\<close>

fun scheme_node ::
  "rounding \<Rightarrow> CouplingScheme \<Rightarrow> adjacency \<Rightarrow> row \<Rightarrow> fval \<Rightarrow> nat \<Rightarrow> row \<Rightarrow> nat
     \<Rightarrow> error + fval" where
  "scheme_node fl Diffusive = diffusive_node fl"
| "scheme_node fl Kaneko = kaneko_node fl"

fun scheme_calc ::
  "rounding \<Rightarrow> CouplingScheme \<Rightarrow> int \<Rightarrow> row \<Rightarrow> adjacency \<Rightarrow> fval \<Rightarrow> nat
     \<Rightarrow> (nat \<Rightarrow> nat \<Rightarrow> real) \<Rightarrow> error + table" where
  "scheme_calc fl Diffusive = diffusivecalc fl"
| "scheme_calc fl Kaneko = kanekocalc fl"

fun scheme_name :: "CouplingScheme \<Rightarrow> string" where
  "scheme_name Diffusive = ''diffusive''"
| "scheme_name Kaneko = ''kaneko''"

text \<open>
  The update in the order of the code's operations. The sum \<open>S\<close> starts from 0 and takes
  the predecessors \<open>l\<close> of \<open>k\<close> in increasing order: \<open>S \<leftarrow> (S + x\<^sub>l) - x\<^sub>k\<close> in the diffusive
  scheme, \<open>S \<leftarrow> S + (r\<^sub>k\<cdot>x\<^sub>l)\<cdot>(1 - x\<^sub>l)\<close> in the Kaneko scheme. The coupling is \<open>S/deg\<close>, and the
  next value is \<open>(((1 - \<sigma>)\<cdot>r\<^sub>k)\<cdot>x\<^sub>k)\<cdot>(1 - x\<^sub>k) + \<sigma>\<cdot>(S/deg)\<close>.
\<close>

fun coupling_step ::
  "rounding \<Rightarrow> CouplingScheme \<Rightarrow> row \<Rightarrow> row \<Rightarrow> nat \<Rightarrow> fval \<Rightarrow> nat \<Rightarrow> fval" where
  "coupling_step fl Diffusive r x k S l = fsub fl (fadd fl S (x ! l)) (x ! k)"
| "coupling_step fl Kaneko r x k S l = fadd fl S (logistic fl (r ! k) (x ! l))"

definition coupling ::
  "rounding \<Rightarrow> CouplingScheme \<Rightarrow> adjacency \<Rightarrow> row \<Rightarrow> nat \<Rightarrow> row \<Rightarrow> nat \<Rightarrow> fval" where
  "coupling fl scheme A r nonodes x k =
     fdiv fl (foldl (coupling_step fl scheme r x k) (Num 0) (preds A nonodes k))
       (Num (real (indeg A nonodes k)))"

definition update_expr ::
  "rounding \<Rightarrow> CouplingScheme \<Rightarrow> adjacency \<Rightarrow> row \<Rightarrow> fval \<Rightarrow> nat \<Rightarrow> row \<Rightarrow> nat \<Rightarrow> fval" where
  "update_expr fl scheme A r sigma nonodes x k =
     fadd fl
       (fmul fl (fmul fl (fmul fl (fsub fl (Num 1) sigma) (r ! k)) (x ! k))
          (fsub fl (Num 1) (x ! k)))
       (fmul fl sigma (coupling fl scheme A r nonodes x k))"

text \<open>
  The update rule as the specification writes it, in arithmetic without rounding:
  \<open>(1 - \<sigma>)\<cdot>f(x\<^sub>k) + (\<sigma>/deg)\<cdot>S\<close>, where \<open>S\<close> is the sum of \<open>x\<^sub>l - x\<^sub>k\<close> (diffusive) or of
  \<open>f(x\<^sub>l)\<close> (Kaneko) over the predecessors \<open>l\<close> of \<open>k\<close>.
\<close>

fun spec_term :: "CouplingScheme \<Rightarrow> row \<Rightarrow> row \<Rightarrow> nat \<Rightarrow> nat \<Rightarrow> fval" where
  "spec_term Diffusive r x k l = fsub exact (x ! l) (x ! k)"
| "spec_term Kaneko r x k l = logistic exact (r ! k) (x ! l)"

definition spec_next ::
  "CouplingScheme \<Rightarrow> adjacency \<Rightarrow> row \<Rightarrow> fval \<Rightarrow> nat \<Rightarrow> row \<Rightarrow> nat \<Rightarrow> fval" where
  "spec_next scheme A r sigma nonodes x k =
     fadd exact
       (fmul exact (fsub exact (Num 1) sigma) (logistic exact (r ! k) (x ! k)))
       (fmul exact (fdiv exact sigma (Num (real (indeg A nonodes k))))
          (foldr (\<lambda>l S. fadd exact (spec_term scheme r x k l) S) (preds A nonodes k) (Num 0)))"

text \<open>A square adjacency matrix with \<open>nonodes\<close> rows and columns.\<close>

definition square :: "adjacency \<Rightarrow> nat \<Rightarrow> bool" where
  "square A nonodes = (length A = nonodes \<and> list_all (\<lambda>rw. length rw = nonodes) A)"

text \<open>
  An argument \<^verbatim>\<open>r\<close> that fits \<open>nonodes\<close> nodes: a Python \<^verbatim>\<open>float\<close>, a Python \<^verbatim>\<open>int\<close> within
  the range of the doubles, or a sequence of length 1 or \<open>nonodes\<close>.
\<close>

fun valid_r :: "rounding \<Rightarrow> rparam \<Rightarrow> nat \<Rightarrow> bool" where
  "valid_r fl (RInt i) nonodes = is_num (fl (of_int i))"
| "valid_r fl (RFloat v) nonodes = True"
| "valid_r fl ROther nonodes = False"
| "valid_r fl (RSeq vs) nonodes = (length vs = 1 \<or> length vs = nonodes)"

text \<open>
  \<open>stuck\<close>: node \<open>k\<close> has the value zero in rows \<open>n\<close> and \<open>n + 1\<close> of the buffer, which is
  the second test of the degeneracy check. \<open>reached\<close>: no node before \<open>k\<close> is stuck in step
  \<open>n\<close>, so that the loop over the nodes gets as far as \<open>k\<close> in that step.
\<close>

definition stuck :: "table \<Rightarrow> nat \<Rightarrow> nat \<Rightarrow> bool" where
  "stuck out n k = (out ! (n + 1) ! k = Num 0 \<and> out ! n ! k = Num 0)"

definition reached :: "table \<Rightarrow> nat \<Rightarrow> nat \<Rightarrow> bool" where
  "reached out n k = list_all (\<lambda>j. \<not> stuck out n j) [0..<k]"

text \<open>A column of a table; a value of the interval \<open>[0,1]\<close>.\<close>

definition column :: "nat \<Rightarrow> table \<Rightarrow> row" where
  "column i out = map (\<lambda>rw. rw ! i) out"

fun in_unit :: "fval \<Rightarrow> bool" where
  "in_unit (Num c) = (0 \<le> c \<and> c \<le> 1)"
| "in_unit _ = False"

text \<open>
  The coupling terms of a buffer are finite: wherever the loop over the nodes gets to a
  node with predecessors, the term \<open>S/deg\<close> of either scheme on the row before is a finite
  number.
\<close>

definition finite_couplings ::
  "rounding \<Rightarrow> adjacency \<Rightarrow> row \<Rightarrow> nat \<Rightarrow> int \<Rightarrow> table \<Rightarrow> bool" where
  "finite_couplings fl A r nonodes tslength out =
     list_all (\<lambda>n. list_all (\<lambda>k. reached out n k \<and> 0 < indeg A nonodes k \<longrightarrow>
                   is_num (coupling fl Diffusive A r nonodes (out ! n) k)
                   \<and> is_num (coupling fl Kaneko A r nonodes (out ! n) k)) [0..<nonodes])
       [0..<nat (tslength + 10000)]"

text \<open>
  Inputs for examples: the graph \<open>X \<rightarrow> Y\<close> of the docstring, the graph of two nodes
  without an edge, parameters for two nodes, and random sources that draw the same row in
  every attempt.
\<close>

definition chain2 :: adjacency where
  "chain2 = [[0, 1], [0, 0]]"

definition apart2 :: adjacency where
  "apart2 = [[0, 0], [0, 0]]"

definition r4 :: row where
  "r4 = [Num 4, Num 4]"

definition rnan :: row where
  "rnan = [NaN, NaN]"

definition r444 :: rparam where
  "r444 = RSeq [Num 4, Num 4, Num 4]"

definition half_rnd :: "nat \<Rightarrow> nat \<Rightarrow> real" where
  "half_rnd c k = 1 / 2"

definition zero_half_rnd :: "nat \<Rightarrow> nat \<Rightarrow> real" where
  "zero_half_rnd c k = (if k = 0 then 0 else 1 / 2)"

definition zero_quarter_rnd :: "nat \<Rightarrow> nat \<Rightarrow> real" where
  "zero_quarter_rnd c k = (if k = 0 then 0 else 1 / 4)"

definition fixed_half_rnd :: "nat \<Rightarrow> nat \<Rightarrow> real" where
  "fixed_half_rnd c k = (if k = 0 then 3 / 4 else 1 / 2)"

definition fixed_rnd :: "nat \<Rightarrow> nat \<Rightarrow> real" where
  "fixed_rnd c k = 3 / 4"

section \<open>Properties\<close>

subsection \<open>Values and the update of one node\<close>

lemma feq_NaN [simp]: "feq v NaN = False"
  by (cases v) simp_all

lemma feq_zero [simp]: "feq v (Num 0) \<longleftrightarrow> v = Num 0"
  by (cases v) auto

lemma fmul_NaN [simp]: "fmul fl NaN v = NaN" "fmul fl v NaN = NaN"
  by (cases v; simp)+

lemma fadd_NaN [simp]: "fadd fl NaN v = NaN" "fadd fl v NaN = NaN"
  by (cases v; simp)+

lemma fsub_NaN [simp]: "fsub fl NaN v = NaN" "fsub fl v NaN = NaN"
  by (simp_all add: fsub_def)

lemma fdiv_NaN [simp]: "fdiv fl NaN v = NaN" "fdiv fl v NaN = NaN"
  by (cases v; simp)+

lemma square_A_at: "square A N \<Longrightarrow> l < N \<Longrightarrow> k < N \<Longrightarrow> A_at A l k = Inr (A ! l ! k)"
  by (simp add: square_def A_at_def list_all_length)

lemma diffusive_sum_eq:
  "square A N \<Longrightarrow> k < N \<Longrightarrow> set ls \<subseteq> {..<N} \<Longrightarrow>
   diffusive_sum fl A x k ls s d =
     Inr (foldl (coupling_step fl Diffusive r x k) s (filter (\<lambda>l. A ! l ! k = 1) ls),
          d + length (filter (\<lambda>l. A ! l ! k = 1) ls))"
proof (induction ls arbitrary: s d)
  case Nil
  then show ?case by simp
next
  case (Cons l ls)
  then have "A_at A l k = Inr (A ! l ! k)"
    by (simp add: square_A_at)
  with Cons show ?case
    by simp
qed

lemma kaneko_sum_eq:
  "square A N \<Longrightarrow> k < N \<Longrightarrow> k < length r \<Longrightarrow> set ls \<subseteq> {..<N} \<Longrightarrow>
   kaneko_sum fl A r x k ls s d =
     Inr (foldl (coupling_step fl Kaneko r x k) s (filter (\<lambda>l. A ! l ! k = 1) ls),
          d + length (filter (\<lambda>l. A ! l ! k = 1) ls))"
proof (induction ls arbitrary: s d)
  case Nil
  then show ?case by simp
next
  case (Cons l ls)
  then have "A_at A l k = Inr (A ! l ! k)"
    by (simp add: square_A_at)
  with Cons show ?case
    by (simp add: logistic_def)
qed

lemma scheme_sum:
  assumes "square A N" "k < N" "k < length r"
  shows "scheme_node fl scheme A r sigma N x k =
     next_value fl r sigma x k (foldl (coupling_step fl scheme r x k) (Num 0) (preds A N k))
       (indeg A N k)"
proof -
  have sub: "set [0..<N] \<subseteq> {..<N}"
    by auto
  show ?thesis
  proof (cases scheme)
    case Diffusive
    then show ?thesis
      using diffusive_sum_eq [OF assms(1,2) sub, of fl x "Num 0" 0 r]
      by (simp add: diffusive_node_def preds_def indeg_def)
  next
    case Kaneko
    then show ?thesis
      using kaneko_sum_eq [OF assms sub, of fl x "Num 0" 0]
      by (simp add: kaneko_node_def preds_def indeg_def)
  qed
qed

lemma scheme_node_coupled:
  assumes "square A N" "k < N" "k < length r" "0 < indeg A N k"
  shows "scheme_node fl scheme A r sigma N x k = Inr (update_expr fl scheme A r sigma N x k)"
  using scheme_sum [OF assms(1,2,3)] assms(3,4)
  by (simp add: next_value_def update_expr_def coupling_def)

lemma scheme_node_source:
  assumes "square A N" "k < N" "k < length r" "indeg A N k = 0"
  shows "scheme_node fl scheme A r sigma N x k = Inr (logistic fl (r ! k) (x ! k))"
  using scheme_sum [OF assms(1,2,3)] assms(3,4)
  by (simp add: next_value_def logistic_def)

lemma scheme_node_ok:
  "square A N \<Longrightarrow> k < N \<Longrightarrow> k < length r \<Longrightarrow>
   \<exists>v. scheme_node fl scheme A r sigma N x k = Inr v"
  by (simp add: scheme_sum next_value_def)

text \<open>Without rounding, sums and products may be regrouped.\<close>

lemma exact_add_commute: "fadd exact a b = fadd exact b a"
  by (cases a; cases b) (simp_all add: exact_def add.commute)

lemma exact_add_assoc: "fadd exact (fadd exact a b) c = fadd exact a (fadd exact b c)"
  by (cases a; cases b; cases c) (simp_all add: exact_def)

lemma exact_add_zero: "fadd exact (Num 0) a = a"
  by (cases a) (simp_all add: exact_def)

lemma exact_mul_commute: "fmul exact a b = fmul exact b a"
  by (cases a; cases b) (simp_all add: exact_def mult.commute)

lemma exact_mul_assoc: "fmul exact (fmul exact a b) c = fmul exact a (fmul exact b c)"
  by (cases a; cases b; cases c)
     (auto simp: exact_def signed_inf_def zero_less_mult_iff mult_less_0_iff not_less
           dest: order.antisym)

lemma exact_div_pos: "0 < d \<Longrightarrow> fdiv exact a (Num d) = fmul exact a (Num (1 / d))"
  by (cases a) (simp_all add: exact_def signed_inf_def)

lemma exact_coupling_sum:
  "foldl (coupling_step exact scheme r x k) S ps
     = fadd exact S (foldr (\<lambda>l S. fadd exact (spec_term scheme r x k l) S) ps (Num 0))"
proof (induction ps arbitrary: S)
  case Nil
  show ?case
    using exact_add_commute [of S "Num 0"] by (simp add: exact_add_zero)
next
  case (Cons l ps)
  have "coupling_step exact scheme r x k S l = fadd exact S (spec_term scheme r x k l)"
    by (cases scheme) (simp_all add: fsub_def exact_add_assoc)
  then show ?case
    by (simp add: Cons exact_add_assoc)
qed

lemma update_expr_exact:
  assumes "0 < indeg A N k"
  shows "update_expr exact scheme A r sigma N x k = spec_next scheme A r sigma N x k"
proof -
  let ?S = "foldr (\<lambda>l S. fadd exact (spec_term scheme r x k l) S) (preds A N k) (Num 0)"
  let ?c = "Num (1 / real (indeg A N k))"
  have d: "0 < real (indeg A N k)"
    using assms by simp
  have "fmul exact sigma (fmul exact ?S ?c) = fmul exact (fmul exact sigma ?c) ?S"
    using exact_mul_commute [of ?S ?c] by (simp add: exact_mul_assoc)
  then show ?thesis
    by (simp add: update_expr_def spec_next_def coupling_def logistic_def exact_coupling_sum
        exact_add_zero exact_div_pos [OF d] exact_mul_assoc)
qed

subsection \<open>Rounding to the nearest double\<close>

lemma round_even_int [simp]: "round_even (of_int n) = n"
  by (simp add: round_even_def)

lemma round_even_mono: "a \<le> b \<Longrightarrow> round_even a \<le> round_even b"
proof -
  assume ab: "a \<le> b"
  have fl: "\<lfloor>a\<rfloor> \<le> \<lfloor>b\<rfloor>"
    using ab by (rule floor_mono)
  show ?thesis
  proof (cases "\<lfloor>a\<rfloor> = \<lfloor>b\<rfloor>")
    case True
    with ab show ?thesis
      by (auto simp: round_even_def)
  next
    case False
    with fl have "\<lfloor>a\<rfloor> + 1 \<le> \<lfloor>b\<rfloor>"
      by simp
    moreover have "round_even a \<le> \<lfloor>a\<rfloor> + 1"
      by (simp add: round_even_def)
    moreover have "\<lfloor>b\<rfloor> \<le> round_even b"
      by (simp add: round_even_def)
    ultimately show ?thesis
      by linarith
  qed
qed

lemma round_even_minus: "round_even (- m) = - round_even m"
proof (cases "m \<in> \<int>")
  case True
  then obtain n where "m = of_int n"
    by (auto elim: Ints_cases)
  then have "- m = of_int (- n)"
    by simp
  then show ?thesis
    using \<open>m = of_int n\<close> round_even_int by metis
next
  case False
  then have ne: "m \<noteq> of_int \<lfloor>m\<rfloor>"
    by (metis Ints_of_int)
  then have lt: "of_int \<lfloor>m\<rfloor> < m"
    using of_int_floor_le [of m] by linarith
  have gt: "m < of_int \<lfloor>m\<rfloor> + 1"
    by linarith
  have fl: "\<lfloor>- m\<rfloor> = - \<lfloor>m\<rfloor> - 1"
  proof (rule floor_unique)
    have eq: "of_int (- \<lfloor>m\<rfloor> - 1) = - of_int \<lfloor>m\<rfloor> - (1::real)"
      by simp
    show "of_int (- \<lfloor>m\<rfloor> - 1) \<le> - m"
      unfolding eq using gt by linarith
    show "- m < of_int (- \<lfloor>m\<rfloor> - 1) + 1"
      unfolding eq using lt by linarith
  qed
  show ?thesis
    unfolding round_even_def fl
    by (auto simp: algebra_simps)
qed

lemma pow2_int: "0 \<le> k \<Longrightarrow> (2::real) powr of_int k = of_int (2 ^ nat k)"
proof -
  assume "0 \<le> k"
  then have "(2::real) powr of_int k = (2::real) powr real (nat k)"
    by simp
  also have "\<dots> = 2 ^ nat k"
    by (rule powr_realpow) simp
  finally show ?thesis
    by simp
qed

lemma floor_log_bounds:
  assumes "0 < x"
  shows "(2::real) powr of_int \<lfloor>log 2 x\<rfloor> \<le> x" and "x < (2::real) powr of_int (\<lfloor>log 2 x\<rfloor> + 1)"
proof -
  have "of_int \<lfloor>log 2 x\<rfloor> \<le> log 2 x"
    by simp
  then have "(2::real) powr of_int \<lfloor>log 2 x\<rfloor> \<le> (2::real) powr log 2 x"
    by (intro powr_mono) simp_all
  then show "(2::real) powr of_int \<lfloor>log 2 x\<rfloor> \<le> x"
    using assms by simp
  have "log 2 x < of_int (\<lfloor>log 2 x\<rfloor> + 1)"
    by simp
  then have "(2::real) powr log 2 x < (2::real) powr of_int (\<lfloor>log 2 x\<rfloor> + 1)"
    by (intro powr_less_mono) simp_all
  then show "x < (2::real) powr of_int (\<lfloor>log 2 x\<rfloor> + 1)"
    using assms by simp
qed

lemma floor_log_le:
  assumes "0 < x" and "x < (2::real) powr of_int k"
  shows "\<lfloor>log 2 x\<rfloor> < k"
proof -
  have "(2::real) powr of_int \<lfloor>log 2 x\<rfloor> < (2::real) powr of_int k"
    using floor_log_bounds(1) [OF assms(1)] assms(2) by linarith
  then show ?thesis
    by simp
qed

lemma floor_log_ge:
  assumes "(2::real) powr of_int k \<le> x"
  shows "k \<le> \<lfloor>log 2 x\<rfloor>"
proof -
  have pos: "0 < x"
    using assms powr_gt_zero [of 2 "of_int k"] by linarith
  have "(2::real) powr of_int k < (2::real) powr of_int (\<lfloor>log 2 x\<rfloor> + 1)"
    using floor_log_bounds(2) [OF pos] assms by linarith
  then have "k < \<lfloor>log 2 x\<rfloor> + 1"
    by simp
  then show ?thesis
    by simp
qed

lemma ulp_exp_minus [simp]: "ulp_exp (- x) = ulp_exp x"
  by (simp add: ulp_exp_def)

lemma ulp_exp_ge: "- 1074 \<le> ulp_exp x"
  by (simp add: ulp_exp_def)

lemma ulp_exp_mono: "0 < a \<Longrightarrow> a \<le> b \<Longrightarrow> ulp_exp a \<le> ulp_exp b"
proof -
  assume a: "0 < a" and ab: "a \<le> b"
  then have "log 2 a \<le> log 2 b"
    by simp
  then have "\<lfloor>log 2 a\<rfloor> \<le> \<lfloor>log 2 b\<rfloor>"
    by (rule floor_mono)
  then show ?thesis
    using a ab by (simp add: ulp_exp_def)
qed

lemma nearest_minus: "nearest (- x) = - nearest x"
  by (simp add: nearest_def round_even_minus)

lemma nearest_nonneg: "0 \<le> x \<Longrightarrow> 0 \<le> nearest x"
proof -
  assume "0 \<le> x"
  then have "0 \<le> x / (2::real) powr of_int (ulp_exp x)"
    by simp
  then have "round_even 0 \<le> round_even (x / (2::real) powr of_int (ulp_exp x))"
    by (rule round_even_mono)
  then have "0 \<le> round_even (x / (2::real) powr of_int (ulp_exp x))"
    using round_even_int [of 0] by simp
  then show ?thesis
    by (simp add: nearest_def)
qed

lemma round_even_le: "m \<le> of_int n \<Longrightarrow> round_even m \<le> n"
  using round_even_mono [of m "of_int n"] by simp

lemma round_even_ge: "of_int n \<le> m \<Longrightarrow> n \<le> round_even m"
  using round_even_mono [of "of_int n" m] by simp

text \<open>A positive number below a power of two is rounded to at most that power.\<close>

lemma nearest_le_pow2:
  assumes "0 < a" and "a \<le> (2::real) powr of_int e" and "ulp_exp a \<le> e"
  shows "nearest a \<le> (2::real) powr of_int e"
proof -
  let ?u = "ulp_exp a"
  have "(2::real) powr of_int e = (2::real) powr of_int (e - ?u) * (2::real) powr of_int ?u"
    by (simp add: powr_add [symmetric])
  also have "(2::real) powr of_int (e - ?u) = of_int (2 ^ nat (e - ?u))"
    by (rule pow2_int) (use assms(3) in simp)
  finally have split: "(2::real) powr of_int e = of_int (2 ^ nat (e - ?u)) * (2::real) powr of_int ?u" .
  have "a / (2::real) powr of_int ?u \<le> of_int (2 ^ nat (e - ?u))"
    using assms(2) unfolding split by (simp add: field_simps)
  then have "round_even (a / (2::real) powr of_int ?u) \<le> 2 ^ nat (e - ?u)"
    by (rule round_even_le)
  then have "of_int (round_even (a / (2::real) powr of_int ?u)) \<le> (of_int (2 ^ nat (e - ?u)) :: real)"
    by (simp only: of_int_le_iff)
  then have "nearest a \<le> of_int (2 ^ nat (e - ?u)) * (2::real) powr of_int ?u"
    unfolding nearest_def by (rule mult_right_mono) simp
  then show ?thesis
    unfolding split .
qed

text \<open>A number that is at least a power of two is rounded to at least that power.\<close>

lemma nearest_ge_pow2:
  assumes "(2::real) powr of_int e \<le> b" and "ulp_exp b \<le> e"
  shows "(2::real) powr of_int e \<le> nearest b"
proof -
  let ?u = "ulp_exp b"
  have "(2::real) powr of_int e = (2::real) powr of_int (e - ?u) * (2::real) powr of_int ?u"
    by (simp add: powr_add [symmetric])
  also have "(2::real) powr of_int (e - ?u) = of_int (2 ^ nat (e - ?u))"
    by (rule pow2_int) (use assms(2) in simp)
  finally have split: "(2::real) powr of_int e = of_int (2 ^ nat (e - ?u)) * (2::real) powr of_int ?u" .
  have "of_int (2 ^ nat (e - ?u)) \<le> b / (2::real) powr of_int ?u"
    using assms(1) unfolding split by (simp add: field_simps)
  then have "2 ^ nat (e - ?u) \<le> round_even (b / (2::real) powr of_int ?u)"
    by (rule round_even_ge)
  then have "(of_int (2 ^ nat (e - ?u)) :: real) \<le> of_int (round_even (b / (2::real) powr of_int ?u))"
    by (simp only: of_int_le_iff)
  then have "of_int (2 ^ nat (e - ?u)) * (2::real) powr of_int ?u \<le> nearest b"
    unfolding nearest_def by (rule mult_right_mono) simp
  then show ?thesis
    unfolding split .
qed

lemma nearest_mono_pos:
  assumes "0 < a" and "a \<le> b"
  shows "nearest a \<le> nearest b"
proof (cases "ulp_exp a = ulp_exp b")
  case True
  have "a / (2::real) powr of_int (ulp_exp b) \<le> b / (2::real) powr of_int (ulp_exp b)"
    using assms(2) by (simp add: divide_right_mono)
  then have "round_even (a / (2::real) powr of_int (ulp_exp b)) \<le> round_even (b / (2::real) powr of_int (ulp_exp b))"
    by (rule round_even_mono)
  then show ?thesis
    unfolding nearest_def True by (simp add: mult_right_mono)
next
  case False
  with ulp_exp_mono [OF assms] have lt: "ulp_exp a < ulp_exp b"
    by simp
  have b: "0 < b"
    using assms by simp
  let ?e = "\<lfloor>log 2 b\<rfloor>"
  define fa fb where "fa = \<lfloor>log 2 a\<rfloor>" and "fb = \<lfloor>log 2 b\<rfloor>"
  have "log 2 a \<le> log 2 b"
    using assms by simp
  then have le: "fa \<le> fb"
    unfolding fa_def fb_def by (rule floor_mono)
  have "\<bar>a\<bar> = a" "\<bar>b\<bar> = b"
    using assms by simp_all
  then have ua: "ulp_exp a = max fa (- 1022) - 52" and ub: "ulp_exp b = max fb (- 1022) - 52"
    by (simp_all add: ulp_exp_def fa_def fb_def)
  from lt le have "fa < fb" and "max fb (- 1022) = fb"
    unfolding ua ub by linarith+
  then have fl: "\<lfloor>log 2 a\<rfloor> < ?e" and eb: "ulp_exp b = ?e - 52"
    unfolding ub unfolding fa_def fb_def by simp_all
  have "a < (2::real) powr of_int (\<lfloor>log 2 a\<rfloor> + 1)"
    by (rule floor_log_bounds(2) [OF assms(1)])
  also have "\<dots> \<le> (2::real) powr of_int ?e"
    using fl by simp
  finally have "a \<le> (2::real) powr of_int ?e"
    by simp
  then have "nearest a \<le> (2::real) powr of_int ?e"
    by (rule nearest_le_pow2 [OF assms(1)]) (use lt eb in simp)
  moreover have "(2::real) powr of_int ?e \<le> nearest b"
    by (rule nearest_ge_pow2 [OF floor_log_bounds(1) [OF b]]) (simp add: eb)
  ultimately show ?thesis
    by simp
qed

lemma nearest_mono: "a \<le> b \<Longrightarrow> nearest a \<le> nearest b"
proof -
  assume ab: "a \<le> b"
  consider "0 < a" | "a \<le> 0" "0 \<le> b" | "b < 0"
    using ab by linarith
  then show ?thesis
  proof cases
    case 1
    then show ?thesis
      using ab by (rule nearest_mono_pos)
  next
    case 2
    have "0 \<le> nearest (- a)"
      by (rule nearest_nonneg) (use 2 in simp)
    then have "nearest a \<le> 0"
      by (simp add: nearest_minus)
    with nearest_nonneg [OF 2(2)] show ?thesis
      by simp
  next
    case 3
    have "nearest (- b) \<le> nearest (- a)"
      by (rule nearest_mono_pos) (use 3 ab in simp_all)
    then show ?thesis
      by (simp add: nearest_minus)
  qed
qed

lemma nearest_zero [simp]: "nearest 0 = 0"
  by (simp add: nearest_def round_even_def)

lemma div_of_mult: "x = c * p \<Longrightarrow> p \<noteq> 0 \<Longrightarrow> x / p = (c::real)"
  by simp

text \<open>A multiple of its own unit in the last place is rounded to itself.\<close>

lemma nearest_multiple:
  assumes "x = of_int q * (2::real) powr of_int u" and "ulp_exp x \<le> u"
  shows "nearest x = x"
proof -
  let ?v = "ulp_exp x"
  have "(2::real) powr of_int u = 2 powr of_int (u - ?v) * 2 powr of_int ?v"
    by (simp add: powr_add [symmetric])
  also have "(2::real) powr of_int (u - ?v) = of_int (2 ^ nat (u - ?v))"
    by (rule pow2_int) (use assms(2) in simp)
  finally have x': "x = of_int (q * 2 ^ nat (u - ?v)) * (2::real) powr of_int ?v"
    using assms(1) by simp
  then have x: "x / (2::real) powr of_int ?v = of_int (q * 2 ^ nat (u - ?v))"
    by (rule div_of_mult) simp
  show ?thesis
    unfolding nearest_def x round_even_int by (rule x' [symmetric])
qed

lemma nearest_dyadic_pos:
  assumes "x = of_int q * (2::real) powr of_int u" and "- 1074 \<le> u" and "0 < q"
    and "q < 2 ^ 53"
  shows "nearest x = x"
proof (rule nearest_multiple [OF assms(1)])
  have pos: "0 < x"
    using assms(1,3) by simp
  have "of_int q < (2::real) ^ 53"
    using assms(4) by (metis of_int_less_iff of_int_numeral of_int_power)
  then have "x < 2 ^ 53 * (2::real) powr of_int u"
    using assms(1) by simp
  also have "\<dots> = (2::real) powr of_int (53 + u)"
    by (simp add: powr_add powr_realpow [symmetric])
  finally have "\<lfloor>log 2 x\<rfloor> < 53 + u"
    by (rule floor_log_le [OF pos])
  moreover have "\<bar>x\<bar> = x"
    using pos by simp
  ultimately show "ulp_exp x \<le> u"
    using assms(2) by (simp add: ulp_exp_def)
qed

lemma nearest_dyadic_nonneg:
  assumes "x = of_int q * (2::real) powr of_int u" and "- 1074 \<le> u" and "0 \<le> q"
    and "q \<le> 2 ^ 53"
  shows "nearest x = x"
proof -
  consider "q = 0" | "0 < q" "q < 2 ^ 53" | "q = 2 ^ 53"
    using assms(3,4) by linarith
  then show ?thesis
  proof cases
    case 1
    with assms(1) show ?thesis by simp
  next
    case 2
    with assms show ?thesis by (intro nearest_dyadic_pos)
  next
    case 3
    have "x = of_int (2 ^ 52) * (2::real) powr of_int (u + 1)"
      using assms(1) 3 by (simp add: powr_add)
    then show ?thesis
      by (rule nearest_dyadic_pos) (use assms(2) in simp_all)
  qed
qed

lemma nearest_dyadic:
  assumes "x = of_int q * (2::real) powr of_int u" and "- 1074 \<le> u" and "\<bar>q\<bar> \<le> 2 ^ 53"
  shows "nearest x = x"
proof (cases "0 \<le> q")
  case True
  with assms show ?thesis
    by (intro nearest_dyadic_nonneg [of x q u]) simp_all
next
  case False
  have "- x = of_int (- q) * (2::real) powr of_int u"
    using assms(1) by simp
  then have "nearest (- x) = - x"
    by (rule nearest_dyadic_nonneg) (use False assms in simp_all)
  then show ?thesis
    by (simp add: nearest_minus)
qed

text \<open>The rounded value is a multiple of the unit, with at most 53 bits.\<close>

lemma round_even_bits:
  "\<bar>round_even (x / (2::real) powr of_int (ulp_exp x))\<bar> \<le> 2 ^ 53"
proof -
  have bound: "round_even (a / (2::real) powr of_int (ulp_exp a)) \<le> 2 ^ 53
      \<and> 0 \<le> round_even (a / (2::real) powr of_int (ulp_exp a))" if "0 < a" for a
  proof
    let ?f = "\<lfloor>log 2 a\<rfloor>"
    have abs: "\<bar>a\<bar> = a"
      using that by simp
    have "a < (2::real) powr of_int (?f + 1)"
      by (rule floor_log_bounds(2) [OF that])
    also have "\<dots> \<le> (2::real) powr of_int (ulp_exp a + 53)"
      by (intro powr_mono) (simp_all add: ulp_exp_def abs)
    also have "\<dots> = 2 ^ 53 * (2::real) powr of_int (ulp_exp a)"
      by (simp add: powr_add powr_realpow [symmetric])
    finally have "a / (2::real) powr of_int (ulp_exp a) \<le> of_int (2 ^ 53)"
      by (simp add: field_simps)
    then show "round_even (a / (2::real) powr of_int (ulp_exp a)) \<le> 2 ^ 53"
      by (rule round_even_le)
    have "of_int 0 \<le> a / (2::real) powr of_int (ulp_exp a)"
      using that by simp
    then show "0 \<le> round_even (a / (2::real) powr of_int (ulp_exp a))"
      by (rule round_even_ge)
  qed
  consider "0 < x" | "x = 0" | "0 < - x"
    by linarith
  then show ?thesis
  proof cases
    case 1
    with bound [of x] show ?thesis by simp
  next
    case 2
    then show ?thesis by (simp add: round_even_def)
  next
    case 3
    with bound [of "- x"] show ?thesis
      by (simp add: round_even_minus)
  qed
qed

lemma nearest_idem: "nearest (nearest x) = nearest x"
  by (rule nearest_dyadic [OF _ ulp_exp_ge round_even_bits]) (simp add: nearest_def)

lemma double_nearest:
  "double x =
     (if 2 ^ 1024 \<le> nearest x then PInf
      else if nearest x \<le> - (2 ^ 1024) then NInf
      else Num (nearest x))"
  by (simp add: double_def)

lemma double_idem: "double a = Num c \<Longrightarrow> double c = Num c"
proof -
  assume "double a = Num c"
  then have "c = nearest a" and "\<not> 2 ^ 1024 \<le> nearest a" and "\<not> nearest a \<le> - (2 ^ 1024)"
    by (auto simp: double_nearest split: if_splits)
  then show ?thesis
    by (simp add: double_nearest nearest_idem)
qed

lemma double_mono: "a \<le> b \<Longrightarrow> flt (double a) (double b) \<or> feq (double a) (double b)"
proof -
  assume "a \<le> b"
  then have "nearest a \<le> nearest b"
    by (rule nearest_mono)
  then show ?thesis
    by (auto simp: double_nearest)
qed

text \<open>A number with at most 53 bits and a denominator within the range is a double.\<close>

lemma double_dyadic:
  assumes "\<bar>q\<bar> < 2 ^ 53" and "k \<le> 1074"
  shows "double (of_int q / 2 ^ k) = Num (of_int q / 2 ^ k)"
proof -
  let ?x = "of_int q / (2::real) ^ k"
  have "?x = of_int q * (2::real) powr of_int (- int k)"
    by (simp add: powr_minus powr_realpow field_simps)
  then have near: "nearest ?x = ?x"
    by (rule nearest_dyadic) (use assms in simp_all)
  have "\<bar>of_int q\<bar> < (2::real) ^ 53"
    using assms(1) by (metis of_int_abs of_int_less_iff of_int_numeral of_int_power)
  moreover have "\<bar>?x\<bar> \<le> \<bar>of_int q\<bar>"
    by (simp add: field_simps mult_le_cancel_left1 abs_mult)
  moreover have "(2::real) ^ 53 \<le> 2 ^ 1024"
    by (rule power_increasing) simp_all
  ultimately have "\<bar>?x\<bar> < 2 ^ 1024"
    by linarith
  then show ?thesis
    unfolding double_nearest near by (auto simp: abs_if split: if_splits)
qed

lemma double_int:
  "\<bar>q\<bar> < 2 ^ 53 \<Longrightarrow> double (of_int q) = Num (of_int q)"
  using double_dyadic [of q 0] by simp

text \<open>The rounding of the code has the properties that the theorems ask for.\<close>

lemma rounding_double: "rounding double"
  unfolding rounding_def
proof (intro conjI allI impI)
  show "double 0 = Num 0"
    by (simp add: double_def)
  show "double 1 = Num 1"
    using double_int [of 1] by simp
  show "double a \<noteq> NaN" for a
    by (simp add: double_def)
  show "double c = Num c" if "double a = Num c" for a c
    using that by (rule double_idem)
  show "flt (double a) (double b) \<or> feq (double a) (double b)" if "a \<le> b" for a b
    using that by (rule double_mono)
qed


subsection \<open>The loop over the nodes\<close>

lemma node_loop_length:
  "node_loop upd x ks new t = Inr (new', t') \<Longrightarrow> length new' = length new"
  by (induction ks arbitrary: new t) (auto split: sum.splits if_splits)

lemma node_loop_untouched:
  "node_loop upd x ks new t = Inr (new', t') \<Longrightarrow> j \<notin> set ks \<Longrightarrow> new' ! j = new ! j"
  by (induction ks arbitrary: new t) (auto split: sum.splits if_splits)

lemma node_loop_flag_mono:
  "node_loop upd x ks new t = Inr (new', t') \<Longrightarrow> t \<Longrightarrow> t'"
  by (induction ks arbitrary: new) (auto split: sum.splits if_splits)

lemma node_loop_ok:
  "(\<And>k. k \<in> set ks \<Longrightarrow> \<exists>v. upd x k = Inr v) \<Longrightarrow>
   \<exists>new' t'. node_loop upd x ks new t = Inr (new', t')"
proof (induction ks arbitrary: new t)
  case Nil
  then show ?case by simp
next
  case (Cons k ks)
  from Cons.prems [of k] obtain v where v: "upd x k = Inr v"
    by auto
  have "\<exists>new' t'. node_loop upd x ks (new[k := v]) t = Inr (new', t')"
    by (rule Cons.IH) (simp add: Cons.prems)
  with v show ?case
    by auto
qed

lemma node_loop_value:
  "node_loop upd x [a..<N] new t = Inr (new', t') \<Longrightarrow> N \<le> length new \<Longrightarrow>
   a \<le> k \<Longrightarrow> k < N \<Longrightarrow>
   (\<And>j. a \<le> j \<Longrightarrow> j < k \<Longrightarrow> \<not> (new' ! j = Num 0 \<and> x ! j = Num 0)) \<Longrightarrow>
   upd x k = Inr (new' ! k)"
proof (induction "N - a" arbitrary: a new t)
  case 0
  then show ?case by simp
next
  case (Suc d)
  then have aN: "a < N"
    by simp
  then have upt: "[a..<N] = a # [Suc a..<N]"
    by (simp add: upt_rec)
  from Suc.prems(1) obtain v where v: "upd x a = Inr v"
    by (auto simp: upt split: sum.splits)
  have alen: "a < length new"
    using aN Suc.prems(2) by simp
  show ?case
  proof (cases "v = Num 0 \<and> x ! a = Num 0")
    case True
    with Suc.prems(1) v have new': "new' = new[a := v]"
      by (simp add: upt)
    show ?thesis
    proof (cases "k = a")
      case True
      with new' alen v show ?thesis by simp
    next
      case False
      with Suc.prems(3) have "a < k" by simp
      with Suc.prems(5) [of a] have "\<not> (new' ! a = Num 0 \<and> x ! a = Num 0)"
        by simp
      with True new' alen show ?thesis by simp
    qed
  next
    case False
    with Suc.prems(1) v
    have rec: "node_loop upd x [Suc a..<N] (new[a := v]) t = Inr (new', t')"
      by (auto simp: upt)
    show ?thesis
    proof (cases "k = a")
      case True
      have "new' ! a = (new[a := v]) ! a"
        using node_loop_untouched [OF rec, of a] by simp
      with True alen v show ?thesis by simp
    next
      case False
      with Suc.prems(3) have ak: "Suc a \<le> k" by simp
      show ?thesis
      proof (rule Suc.hyps(1) [OF _ rec])
        show "d = N - Suc a" using Suc.hyps(2) by simp
        show "N \<le> length (new[a := v])" using Suc.prems(2) by simp
        show "Suc a \<le> k" by (rule ak)
        show "k < N" by (rule Suc.prems(4))
        show "\<not> (new' ! j = Num 0 \<and> x ! j = Num 0)" if "Suc a \<le> j" "j < k" for j
          using that Suc.prems(5) [of j] by simp
      qed
    qed
  qed
qed

lemma node_loop_flagged:
  "node_loop upd x ks new t = Inr (new', t') \<Longrightarrow> distinct ks \<Longrightarrow>
   set ks \<subseteq> {..<length new} \<Longrightarrow> t' \<Longrightarrow> \<not> t \<Longrightarrow>
   \<exists>k \<in> set ks. new' ! k = Num 0 \<and> x ! k = Num 0"
proof (induction ks arbitrary: new)
  case Nil
  then show ?case by simp
next
  case (Cons k ks)
  from Cons.prems(1) obtain v where v: "upd x k = Inr v"
    by (auto split: sum.splits)
  show ?case
  proof (cases "v = Num 0 \<and> x ! k = Num 0")
    case True
    with Cons.prems(1) v have "new' = new[k := v]"
      by simp
    with True Cons.prems(3) show ?thesis by simp
  next
    case False
    with Cons.prems(1) v
    have rec: "node_loop upd x ks (new[k := v]) t = Inr (new', t')"
      by auto
    have "\<exists>k \<in> set ks. new' ! k = Num 0 \<and> x ! k = Num 0"
      using Cons.IH [OF rec] Cons.prems by simp
    then show ?thesis by auto
  qed
qed

subsection \<open>The loop over the time steps\<close>

lemma time_loop_length:
  "time_loop upd N ns out t = Inr (out', t') \<Longrightarrow> length out' = length out"
  by (induction ns arbitrary: out t) (auto split: sum.splits)

lemma time_loop_rows:
  "time_loop upd N ns out t = Inr (out', t') \<Longrightarrow> \<forall>n \<in> set ns. n + 1 < length out \<Longrightarrow>
   \<forall>rw \<in> set out. length rw = M \<Longrightarrow> \<forall>rw \<in> set out'. length rw = M"
proof (induction ns arbitrary: out t)
  case Nil
  then show ?case by simp
next
  case (Cons n ns)
  from Cons.prems(1) obtain new t1 where
    step: "node_loop upd (out ! n) [0..<N] (out ! (n + 1)) t = Inr (new, t1)" and
    rec: "time_loop upd N ns (out[n + 1 := new]) t1 = Inr (out', t')"
    by (auto split: sum.splits)
  have "length new = M"
    using node_loop_length [OF step] Cons.prems(2,3) by simp
  then have "\<forall>rw \<in> set (out[n + 1 := new]). length rw = M"
    using Cons.prems(3) set_update_subset_insert [of out "n + 1" new] by auto
  then show ?case
    using Cons.IH [OF rec] Cons.prems(2) by simp
qed

lemma time_loop_prefix:
  "time_loop upd N ns out t = Inr (out', t') \<Longrightarrow> \<forall>n \<in> set ns. i \<le> n \<Longrightarrow>
   out' ! i = out ! i"
proof (induction ns arbitrary: out t)
  case Nil
  then show ?case by simp
next
  case (Cons n ns)
  from Cons.prems(1) obtain new t1 where
    rec: "time_loop upd N ns (out[n + 1 := new]) t1 = Inr (out', t')"
    by (auto split: sum.splits)
  have "out' ! i = (out[n + 1 := new]) ! i"
    using Cons.IH [OF rec] Cons.prems(2) by simp
  then show ?case
    using Cons.prems(2) by simp
qed

lemma time_loop_flag_mono:
  "time_loop upd N ns out t = Inr (out', t') \<Longrightarrow> t \<Longrightarrow> t'"
proof (induction ns arbitrary: out t)
  case Nil
  then show ?case by simp
next
  case (Cons n ns)
  from Cons.prems(1) obtain new t1 where
    step: "node_loop upd (out ! n) [0..<N] (out ! (n + 1)) t = Inr (new, t1)" and
    rec: "time_loop upd N ns (out[n + 1 := new]) t1 = Inr (out', t')"
    by (auto split: sum.splits)
  have t1 using node_loop_flag_mono [OF step] Cons.prems(2) by simp
  then show ?case by (rule Cons.IH [OF rec])
qed

lemma time_loop_ok:
  "(\<And>x k. k < N \<Longrightarrow> \<exists>v. upd x k = Inr v) \<Longrightarrow>
   \<exists>out' t'. time_loop upd N ns out t = Inr (out', t')"
proof (induction ns arbitrary: out t)
  case Nil
  then show ?case by simp
next
  case (Cons n ns)
  have "\<exists>new t1. node_loop upd (out ! n) [0..<N] (out ! (n + 1)) t = Inr (new, t1)"
    by (rule node_loop_ok) (simp add: Cons.prems)
  then obtain new t1 where
    step: "node_loop upd (out ! n) [0..<N] (out ! (n + 1)) t = Inr (new, t1)"
    by auto
  have "\<exists>out' t'. time_loop upd N ns (out[n + 1 := new]) t1 = Inr (out', t')"
    by (rule Cons.IH) (rule Cons.prems)
  with step show ?case
    by auto
qed

text \<open>The final buffer satisfies the step relation row by row.\<close>

lemma time_loop_step:
  "time_loop upd N [a..<T] out t = Inr (out', t') \<Longrightarrow> T < length out \<Longrightarrow>
   a \<le> n \<Longrightarrow> n < T \<Longrightarrow>
   \<exists>t1 t2. node_loop upd (out' ! n) [0..<N] (out ! (n + 1)) t1 = Inr (out' ! (n + 1), t2)
            \<and> (t1 \<longrightarrow> t2) \<and> (t \<longrightarrow> t1) \<and> (t2 \<longrightarrow> t')"
proof (induction "T - a" arbitrary: a out t)
  case 0
  then show ?case by simp
next
  case (Suc d)
  then have aT: "a < T"
    by simp
  then have upt: "[a..<T] = a # [Suc a..<T]"
    by (simp add: upt_rec)
  from Suc.prems(1) obtain new t1 where
    step: "node_loop upd (out ! a) [0..<N] (out ! (a + 1)) t = Inr (new, t1)" and
    rec: "time_loop upd N [Suc a..<T] (out[a + 1 := new]) t1 = Inr (out', t')"
    by (auto simp: upt split: sum.splits)
  have keep: "out' ! i = (out[a + 1 := new]) ! i" if "i \<le> Suc a" for i
    using time_loop_prefix [OF rec, of i] that by simp
  show ?case
  proof (cases "n = a")
    case True
    have "out' ! a = out ! a"
      using keep [of a] by simp
    moreover have "out' ! (a + 1) = new"
      using keep [of "Suc a"] aT Suc.prems(2) by simp
    moreover have "t1 \<longrightarrow> t'"
      using time_loop_flag_mono [OF rec] by simp
    moreover have "t \<longrightarrow> t1"
      using node_loop_flag_mono [OF step] by simp
    ultimately show ?thesis
      using step True by auto
  next
    case False
    with Suc.prems(3) have an: "Suc a \<le> n" by simp
    have "\<exists>u1 u2. node_loop upd (out' ! n) [0..<N] ((out[a + 1 := new]) ! (n + 1)) u1
              = Inr (out' ! (n + 1), u2) \<and> (u1 \<longrightarrow> u2) \<and> (t1 \<longrightarrow> u1) \<and> (u2 \<longrightarrow> t')"
    proof (rule Suc.hyps(1) [OF _ rec])
      show "d = T - Suc a" using Suc.hyps(2) by simp
      show "T < length (out[a + 1 := new])" using Suc.prems(2) by simp
      show "Suc a \<le> n" by (rule an)
      show "n < T" by (rule Suc.prems(4))
    qed
    moreover have "(out[a + 1 := new]) ! (n + 1) = out ! (n + 1)"
      using an by simp
    moreover have "t \<longrightarrow> t1"
      using node_loop_flag_mono [OF step] by simp
    ultimately show ?thesis
      by auto
  qed
qed

text \<open>A raised flag comes from a node that is zero in two consecutive rows.\<close>

lemma time_loop_flagged:
  "time_loop upd N [a..<T] out t = Inr (out', t') \<Longrightarrow> T < length out \<Longrightarrow>
   \<forall>rw \<in> set out. length rw = N \<Longrightarrow> t' \<Longrightarrow> \<not> t \<Longrightarrow>
   \<exists>n k. a \<le> n \<and> n < T \<and> k < N \<and> stuck out' n k"
proof (induction "T - a" arbitrary: a out t)
  case 0
  then show ?case by simp
next
  case (Suc d)
  then have aT: "a < T"
    by simp
  then have upt: "[a..<T] = a # [Suc a..<T]"
    by (simp add: upt_rec)
  from Suc.prems(1) obtain new t1 where
    step: "node_loop upd (out ! a) [0..<N] (out ! (a + 1)) t = Inr (new, t1)" and
    rec: "time_loop upd N [Suc a..<T] (out[a + 1 := new]) t1 = Inr (out', t')"
    by (auto simp: upt split: sum.splits)
  have keep: "out' ! i = (out[a + 1 := new]) ! i" if "i \<le> Suc a" for i
    using time_loop_prefix [OF rec, of i] that by simp
  have rowlen: "length (out ! (a + 1)) = N"
    using Suc.prems(2,3) aT by simp
  have newlen: "length new = N"
    using node_loop_length [OF step] rowlen by simp
  show ?case
  proof (cases t1)
    case True
    have "\<exists>k \<in> set [0..<N]. new ! k = Num 0 \<and> out ! a ! k = Num 0"
      by (rule node_loop_flagged [OF step]) (use rowlen True Suc.prems(5) in auto)
    then obtain k where k: "k < N" "new ! k = Num 0" "out ! a ! k = Num 0"
      by auto
    have "out' ! a = out ! a"
      using keep [of a] by simp
    moreover have "out' ! (a + 1) = new"
      using keep [of "Suc a"] aT Suc.prems(2) by simp
    ultimately have "stuck out' a k"
      using k by (simp add: stuck_def)
    with aT k(1) show ?thesis
      by auto
  next
    case False
    have "\<exists>n k. Suc a \<le> n \<and> n < T \<and> k < N \<and> stuck out' n k"
    proof (rule Suc.hyps(1) [OF _ rec])
      show "d = T - Suc a" using Suc.hyps(2) by simp
      show "T < length (out[a + 1 := new])" using Suc.prems(2) by simp
      show "\<forall>rw \<in> set (out[a + 1 := new]). length rw = N"
        using Suc.prems(3) newlen set_update_subset_insert [of out "a + 1" new] by auto
      show t' by (rule Suc.prems(4))
      show "\<not> t1" by (rule False)
    qed
    then show ?thesis
      by (meson Suc_leD)
  qed
qed

subsection \<open>Attempts and the retry loop\<close>

declare calc_loop.simps [simp del]

lemma alloc_Inr:
  "alloc ts N draw = Inr out0 \<Longrightarrow>
   0 < ts + 10001 \<and> length out0 = nat (ts + 10000) + 1 \<and> (\<forall>rw \<in> set out0. length rw = N)
     \<and> out0 ! 0 = map (\<lambda>k. Num (draw k)) [0..<N]"
proof -
  assume a: "alloc ts N draw = Inr out0"
  then have pos: "0 < ts + 10001"
    by (auto simp: alloc_def split: if_splits)
  with a have out0: "out0 = (replicate (nat (ts + 10001)) (replicate N NaN))
                  [0 := map (\<lambda>k. Num (draw k)) [0..<N]]"
    by (auto simp: alloc_def split: if_splits)
  have len: "length out0 = nat (ts + 10000) + 1"
    using pos by (simp add: out0 nat_add_distrib)
  have "\<forall>rw \<in> set out0. length rw = N"
    unfolding out0
    using set_update_subset_insert
      [of "replicate (nat (ts + 10001)) (replicate N NaN)" 0 "map (\<lambda>k. Num (draw k)) [0..<N]"]
    by auto
  moreover have "out0 ! 0 = map (\<lambda>k. Num (draw k)) [0..<N]"
    using pos by (simp add: out0)
  ultimately show ?thesis
    using pos len by simp
qed

lemma alloc_ok: "0 < ts + 10001 \<Longrightarrow> \<exists>out0. alloc ts N draw = Inr out0"
  by (simp add: alloc_def)

lemma attempt_shape:
  assumes "attempt upd ts N draw = Inr (out, t)"
  shows "0 < ts + 10001" and "length out = nat (ts + 10000) + 1"
    and "\<forall>rw \<in> set out. length rw = N" and "out ! 0 = map (\<lambda>k. Num (draw k)) [0..<N]"
proof -
  from assms obtain out0 where
    a: "alloc ts N draw = Inr out0" and
    tl: "time_loop upd N [0..<nat (ts + 10000)] out0 False = Inr (out, t)"
    by (auto simp: attempt_def split: sum.splits)
  note al = alloc_Inr [OF a]
  show "0 < ts + 10001" using al by simp
  show "length out = nat (ts + 10000) + 1"
    using time_loop_length [OF tl] al by simp
  show "\<forall>rw \<in> set out. length rw = N"
    by (rule time_loop_rows [OF tl]) (use al in auto)
  show "out ! 0 = map (\<lambda>k. Num (draw k)) [0..<N]"
    using time_loop_prefix [OF tl, of 0] al by simp
qed

lemma attempt_entry:
  assumes "attempt upd ts N draw = Inr (out, t)"
    and "n < nat (ts + 10000)" and "k < N" and "reached out n k"
  shows "upd (out ! n) k = Inr (out ! (n + 1) ! k)"
proof -
  from assms(1) obtain out0 where
    a: "alloc ts N draw = Inr out0" and
    tl: "time_loop upd N [0..<nat (ts + 10000)] out0 False = Inr (out, t)"
    by (auto simp: attempt_def split: sum.splits)
  note al = alloc_Inr [OF a]
  have "\<exists>t1 t2. node_loop upd (out ! n) [0..<N] (out0 ! (n + 1)) t1 = Inr (out ! (n + 1), t2)
            \<and> (t1 \<longrightarrow> t2) \<and> (False \<longrightarrow> t1) \<and> (t2 \<longrightarrow> t)"
    by (rule time_loop_step [OF tl]) (use al assms(2) in auto)
  then obtain t1 t2 where
    nl: "node_loop upd (out ! n) [0..<N] (out0 ! (n + 1)) t1 = Inr (out ! (n + 1), t2)"
    by auto
  have "length (out0 ! (n + 1)) = N"
    using al assms(2) by simp
  then have len: "N \<le> length (out0 ! (n + 1))"
    by simp
  show ?thesis
  proof (rule node_loop_value [OF nl len _ assms(3)])
    show "0 \<le> k" by simp
    show "\<not> (out ! (n + 1) ! j = Num 0 \<and> out ! n ! j = Num 0)" if "0 \<le> j" "j < k" for j
      using assms(4) that by (simp add: reached_def stuck_def list_all_iff)
  qed
qed

lemma attempt_ok:
  assumes "\<And>x k. k < N \<Longrightarrow> \<exists>v. upd x k = Inr v" and "0 < ts + 10001"
  shows "\<exists>out t. attempt upd ts N draw = Inr (out, t)"
proof -
  from alloc_ok [OF assms(2)] obtain out0 where a: "alloc ts N draw = Inr out0"
    by blast
  have "\<exists>out t. time_loop upd N [0..<nat (ts + 10000)] out0 False = Inr (out, t)"
    by (rule time_loop_ok) (rule assms(1))
  with a show ?thesis
    by (auto simp: attempt_def)
qed

lemma attempt_flagged:
  assumes "attempt upd ts N draw = Inr (out, True)"
  shows "\<exists>n k. n < nat (ts + 10000) \<and> k < N \<and> stuck out n k"
proof -
  from assms(1) obtain out0 where
    a: "alloc ts N draw = Inr out0" and
    tl: "time_loop upd N [0..<nat (ts + 10000)] out0 False = Inr (out, True)"
    by (auto simp: attempt_def split: sum.splits)
  note al = alloc_Inr [OF a]
  have "\<exists>n k. 0 \<le> n \<and> n < nat (ts + 10000) \<and> k < N \<and> stuck out n k"
    by (rule time_loop_flagged [OF tl]) (use al in auto)
  then show ?thesis by simp
qed

lemma calc_loop_unfold:
  "attempt upd ts N (rnd (c + 1)) = Inr (out1, t1) \<Longrightarrow>
   calc_loop upd ts N rnd c =
     (if \<not> t1 \<or> 10 < c + 1 then Inr (out1, c + 1, t1) else calc_loop upd ts N rnd (c + 1))"
  by (subst calc_loop.simps) simp

lemma calc_loop_error:
  "attempt upd ts N (rnd (c + 1)) = Inl e \<Longrightarrow> calc_loop upd ts N rnd c = Inl e"
  by (subst calc_loop.simps) simp

lemma calc_loop_result:
  "calc_loop upd ts N rnd c = Inr (out, c', t) \<Longrightarrow>
   attempt upd ts N (rnd c') = Inr (out, t) \<and> c < c' \<and> (c' \<le> 11 \<or> c' = c + 1)
     \<and> (t \<longrightarrow> 11 \<le> c')
     \<and> (\<forall>i. c < i \<and> i < c' \<longrightarrow> (\<exists>out1. attempt upd ts N (rnd i) = Inr (out1, True)))"
proof (induction upd ts N rnd c rule: calc_loop.induct)
  case (1 upd ts N rnd c)
  have "\<exists>out1 t1. attempt upd ts N (rnd (c + 1)) = Inr (out1, t1)"
  proof (cases "attempt upd ts N (rnd (c + 1))")
    case (Inl e)
    with "1.prems" calc_loop_error [of upd ts N rnd c e, OF Inl] show ?thesis by simp
  next
    case (Inr p)
    then show ?thesis by (cases p) simp
  qed
  then obtain out1 t1 where
    att: "attempt upd ts N (rnd (c + 1)) = Inr (out1, t1)"
    by blast
  note unf = calc_loop_unfold [of upd ts N rnd c out1 t1, OF att]
  show ?case
  proof (cases "\<not> t1 \<or> 10 < c + 1")
    case True
    with "1.prems" unf have "out = out1 \<and> c' = c + 1 \<and> t = t1"
      by simp
    with att True show ?thesis
      by auto
  next
    case False
    with "1.prems" unf have rec: "calc_loop upd ts N rnd (c + 1) = Inr (out, c', t)"
      by simp
    have ih: "attempt upd ts N (rnd c') = Inr (out, t) \<and> c + 1 < c'
        \<and> (c' \<le> 11 \<or> c' = c + 1 + 1) \<and> (t \<longrightarrow> 11 \<le> c')
        \<and> (\<forall>i. c + 1 < i \<and> i < c' \<longrightarrow> (\<exists>out1. attempt upd ts N (rnd i) = Inr (out1, True)))"
      by (rule "1.IH" [OF att refl _ _ rec]) (use False in auto)
    have "\<exists>o1. attempt upd ts N (rnd i) = Inr (o1, True)" if "c < i" "i < c'" for i
    proof (cases "i = c + 1")
      case True
      with att False show ?thesis by auto
    next
      case False
      with that ih show ?thesis by auto
    qed
    with ih False show ?thesis
      by auto
  qed
qed

lemma calc_loop_ok:
  "(\<And>draw. \<exists>out t. attempt upd ts N draw = Inr (out, t)) \<Longrightarrow>
   \<exists>out c' t. calc_loop upd ts N rnd c = Inr (out, c', t)"
proof (induction upd ts N rnd c rule: calc_loop.induct)
  case (1 upd ts N rnd c)
  from "1.prems" obtain out1 t1 where
    att: "attempt upd ts N (rnd (c + 1)) = Inr (out1, t1)"
    by blast
  note unf = calc_loop_unfold [of upd ts N rnd c out1 t1, OF att]
  show ?case
  proof (cases "\<not> t1 \<or> 10 < c + 1")
    case True
    with unf show ?thesis
      by simp
  next
    case False
    have "\<exists>out c' t. calc_loop upd ts N rnd (c + 1) = Inr (out, c', t)"
      by (rule "1.IH" [OF att refl]) (use False "1.prems" in auto)
    with unf False show ?thesis
      by simp
  qed
qed

subsection \<open>Nodes that a step does not reach, and engines that agree\<close>

lemma node_loop_unreached:
  "node_loop upd x [a..<N] new t = Inr (new', t') \<Longrightarrow> N \<le> length new \<Longrightarrow>
   a \<le> j \<Longrightarrow> j < k \<Longrightarrow> k < N \<Longrightarrow> new' ! j = Num 0 \<Longrightarrow> x ! j = Num 0 \<Longrightarrow>
   new' ! k = new ! k"
proof (induction "N - a" arbitrary: a new t)
  case 0
  then show ?case by simp
next
  case (Suc d)
  then have aN: "a < N"
    by simp
  then have upt: "[a..<N] = a # [Suc a..<N]"
    by (simp add: upt_rec)
  from Suc.prems(1) obtain v where v: "upd x a = Inr v"
    by (auto simp: upt split: sum.splits)
  have alen: "a < length new"
    using aN Suc.prems(2) by simp
  show ?case
  proof (cases "v = Num 0 \<and> x ! a = Num 0")
    case True
    with Suc.prems(1) v have "new' = new[a := v]"
      by (simp add: upt)
    with Suc.prems(3,4) show ?thesis
      by simp
  next
    case False
    with Suc.prems(1) v
    have rec: "node_loop upd x [Suc a..<N] (new[a := v]) t = Inr (new', t')"
      by (auto simp: upt)
    have "new' ! a = (new[a := v]) ! a"
      using node_loop_untouched [OF rec, of a] by simp
    then have "new' ! a = v"
      using alen by simp
    with False Suc.prems(6,7) have "j \<noteq> a"
      by auto
    with Suc.prems(3) have aj: "Suc a \<le> j"
      by simp
    have "new' ! k = (new[a := v]) ! k"
    proof (rule Suc.hyps(1) [OF _ rec _ aj Suc.prems(4,5,6,7)])
      show "d = N - Suc a" using Suc.hyps(2) by simp
      show "N \<le> length (new[a := v])" using Suc.prems(2) by simp
    qed
    with aj Suc.prems(4) show ?thesis
      by simp
  qed
qed

lemma node_loop_any_flag:
  "node_loop upd x ks new t = Inr (new', t') \<Longrightarrow> \<exists>t''. node_loop upd x ks new s = Inr (new', t'')"
  by (induction ks arbitrary: new) (auto split: sum.splits if_splits)

lemma node_loop_cong:
  "(\<And>k. k \<in> set ks \<Longrightarrow> upd1 x k = upd2 x k) \<Longrightarrow>
   node_loop upd1 x ks new t = node_loop upd2 x ks new t"
  by (induction ks arbitrary: new) (auto split: sum.splits)

lemma node_loop_agree:
  "node_loop upd1 x [a..<N] new t = Inr (new', t') \<Longrightarrow> N \<le> length new \<Longrightarrow>
   (\<And>k. a \<le> k \<Longrightarrow> k < N \<Longrightarrow>
      (\<And>j. a \<le> j \<Longrightarrow> j < k \<Longrightarrow> \<not> (new' ! j = Num 0 \<and> x ! j = Num 0)) \<Longrightarrow>
      upd2 x k = upd1 x k) \<Longrightarrow>
   node_loop upd2 x [a..<N] new t = Inr (new', t')"
proof (induction "N - a" arbitrary: a new t)
  case 0
  then show ?case by simp
next
  case (Suc d)
  then have aN: "a < N"
    by simp
  then have upt: "[a..<N] = a # [Suc a..<N]"
    by (simp add: upt_rec)
  from Suc.prems(1) obtain v where v: "upd1 x a = Inr v"
    by (auto simp: upt split: sum.splits)
  have "upd2 x a = upd1 x a"
    by (rule Suc.prems(3)) (use aN in auto)
  with v have v2: "upd2 x a = Inr v"
    by simp
  have alen: "a < length new"
    using aN Suc.prems(2) by simp
  show ?case
  proof (cases "v = Num 0 \<and> x ! a = Num 0")
    case True
    with Suc.prems(1) v v2 show ?thesis
      by (simp add: upt)
  next
    case False
    with Suc.prems(1) v
    have rec: "node_loop upd1 x [Suc a..<N] (new[a := v]) t = Inr (new', t')"
      by (auto simp: upt)
    have "new' ! a = (new[a := v]) ! a"
      using node_loop_untouched [OF rec, of a] by simp
    then have newa: "new' ! a = v"
      using alen by simp
    have "node_loop upd2 x [Suc a..<N] (new[a := v]) t = Inr (new', t')"
    proof (rule Suc.hyps(1) [OF _ rec])
      show "d = N - Suc a" using Suc.hyps(2) by simp
      show "N \<le> length (new[a := v])" using Suc.prems(2) by simp
      show "upd2 x k = upd1 x k"
        if k: "Suc a \<le> k" "k < N"
          and free: "\<And>j. Suc a \<le> j \<Longrightarrow> j < k \<Longrightarrow> \<not> (new' ! j = Num 0 \<and> x ! j = Num 0)"
        for k
      proof (rule Suc.prems(3))
        show "a \<le> k" using k(1) by simp
        show "k < N" by (rule k(2))
        show "\<not> (new' ! j = Num 0 \<and> x ! j = Num 0)" if "a \<le> j" "j < k" for j
        proof (cases "j = a")
          case True
          with newa False show ?thesis by simp
        next
          case False
          with that free [of j] show ?thesis by simp
        qed
      qed
    qed
    with v2 False show ?thesis
      by (auto simp: upt)
  qed
qed

lemma time_loop_cong_all:
  "(\<And>x k. k < N \<Longrightarrow> upd1 x k = upd2 x k) \<Longrightarrow>
   time_loop upd1 N ns out t = time_loop upd2 N ns out t"
proof (induction ns arbitrary: out t)
  case Nil
  then show ?case by simp
next
  case (Cons n ns)
  have "node_loop upd1 (out ! n) [0..<N] (out ! (n + 1)) t
      = node_loop upd2 (out ! n) [0..<N] (out ! (n + 1)) t"
    by (rule node_loop_cong) (simp add: Cons.prems)
  moreover have "time_loop upd1 N ns out' t' = time_loop upd2 N ns out' t'" for out' t'
    by (rule Cons.IH) (rule Cons.prems)
  ultimately show ?case
    by (simp split: sum.splits)
qed

lemma time_loop_agree:
  "time_loop upd1 N [a..<T] out t = Inr (out', t') \<Longrightarrow> T < length out \<Longrightarrow>
   \<forall>rw \<in> set out. length rw = N \<Longrightarrow>
   (\<And>n k. a \<le> n \<Longrightarrow> n < T \<Longrightarrow> k < N \<Longrightarrow> reached out' n k \<Longrightarrow>
      upd2 (out' ! n) k = upd1 (out' ! n) k) \<Longrightarrow>
   time_loop upd2 N [a..<T] out t = Inr (out', t')"
proof (induction "T - a" arbitrary: a out t)
  case 0
  then show ?case by simp
next
  case (Suc d)
  then have aT: "a < T"
    by simp
  then have upt: "[a..<T] = a # [Suc a..<T]"
    by (simp add: upt_rec)
  from Suc.prems(1) obtain new t1 where
    step: "node_loop upd1 (out ! a) [0..<N] (out ! (a + 1)) t = Inr (new, t1)" and
    rec: "time_loop upd1 N [Suc a..<T] (out[a + 1 := new]) t1 = Inr (out', t')"
    by (auto simp: upt split: sum.splits)
  have keep: "out' ! i = (out[a + 1 := new]) ! i" if "i \<le> Suc a" for i
    using time_loop_prefix [OF rec, of i] that by simp
  have rowa: "out' ! a = out ! a"
    using keep [of a] by simp
  have rowb: "out' ! (a + 1) = new"
    using keep [of "Suc a"] aT Suc.prems(2) by simp
  have len: "length (out ! (a + 1)) = N"
    using Suc.prems(2,3) aT by simp
  have newlen: "length new = N"
    using node_loop_length [OF step] len by simp
  have step2: "node_loop upd2 (out ! a) [0..<N] (out ! (a + 1)) t = Inr (new, t1)"
  proof (rule node_loop_agree [OF step])
    show "N \<le> length (out ! (a + 1))" using len by simp
    show "upd2 (out ! a) k = upd1 (out ! a) k"
      if k: "0 \<le> k" "k < N"
        and free: "\<And>j. 0 \<le> j \<Longrightarrow> j < k \<Longrightarrow> \<not> (new ! j = Num 0 \<and> out ! a ! j = Num 0)"
      for k
    proof -
      have "reached out' a k"
        using free rowa rowb by (simp add: reached_def stuck_def list_all_iff)
      from Suc.prems(4) [OF _ aT k(2) this] rowa show ?thesis
        by simp
    qed
  qed
  have "time_loop upd2 N [Suc a..<T] (out[a + 1 := new]) t1 = Inr (out', t')"
  proof (rule Suc.hyps(1) [OF _ rec])
    show "d = T - Suc a" using Suc.hyps(2) by simp
    show "T < length (out[a + 1 := new])" using Suc.prems(2) by simp
    show "\<forall>rw \<in> set (out[a + 1 := new]). length rw = N"
      using Suc.prems(3) newlen set_update_subset_insert [of out "a + 1" new] by auto
    show "upd2 (out' ! n) k = upd1 (out' ! n) k"
      if "Suc a \<le> n" "n < T" "k < N" "reached out' n k" for n k
      by (rule Suc.prems(4)) (use that in auto)
  qed
  with step2 show ?case
    by (simp add: upt)
qed

lemma alloc_rows:
  "alloc ts N draw = Inr out0 \<Longrightarrow> 0 < i \<Longrightarrow> i < length out0 \<Longrightarrow> out0 ! i = replicate N NaN"
  by (auto simp: alloc_def split: if_splits)

lemma attempt_step_row:
  assumes "attempt upd ts N draw = Inr (out, t)" and "n < nat (ts + 10000)"
  shows "\<exists>t2. node_loop upd (out ! n) [0..<N] (replicate N NaN) False = Inr (out ! (n + 1), t2)"
proof -
  from assms(1) obtain out0 where
    a: "alloc ts N draw = Inr out0" and
    tl: "time_loop upd N [0..<nat (ts + 10000)] out0 False = Inr (out, t)"
    by (auto simp: attempt_def split: sum.splits)
  note al = alloc_Inr [OF a]
  have "\<exists>t1 t2. node_loop upd (out ! n) [0..<N] (out0 ! (n + 1)) t1 = Inr (out ! (n + 1), t2)
            \<and> (t1 \<longrightarrow> t2) \<and> (False \<longrightarrow> t1) \<and> (t2 \<longrightarrow> t)"
    by (rule time_loop_step [OF tl]) (use al assms(2) in auto)
  then obtain t1 t2 where
    nl: "node_loop upd (out ! n) [0..<N] (out0 ! (n + 1)) t1 = Inr (out ! (n + 1), t2)"
    by auto
  have "out0 ! (n + 1) = replicate N NaN"
    by (rule alloc_rows [OF a]) (use al assms(2) in auto)
  with node_loop_any_flag [OF nl, of False] show ?thesis
    by simp
qed

lemma attempt_unreached:
  assumes "attempt upd ts N draw = Inr (out, t)"
    and "n < nat (ts + 10000)" and "k < N" and "\<not> reached out n k"
  shows "out ! (n + 1) ! k = NaN"
proof -
  from attempt_step_row [OF assms(1,2)] obtain t2 where
    nl: "node_loop upd (out ! n) [0..<N] (replicate N NaN) False = Inr (out ! (n + 1), t2)"
    by blast
  from assms(4) obtain j where j: "j < k" "stuck out n j"
    by (auto simp: reached_def list_all_iff)
  have "out ! (n + 1) ! k = replicate N NaN ! k"
    by (rule node_loop_unreached [OF nl _ _ j(1) assms(3)])
       (use j(2) in \<open>simp_all add: stuck_def\<close>)
  with assms(3) show ?thesis
    by simp
qed

lemma attempt_agree:
  assumes "attempt upd1 ts N draw = Inr (out, t)"
    and agree: "\<And>n k. n < nat (ts + 10000) \<Longrightarrow> k < N \<Longrightarrow> reached out n k \<Longrightarrow>
      upd2 (out ! n) k = upd1 (out ! n) k"
  shows "attempt upd2 ts N draw = Inr (out, t)"
proof -
  from assms(1) obtain out0 where
    a: "alloc ts N draw = Inr out0" and
    tl: "time_loop upd1 N [0..<nat (ts + 10000)] out0 False = Inr (out, t)"
    by (auto simp: attempt_def split: sum.splits)
  note al = alloc_Inr [OF a]
  have "time_loop upd2 N [0..<nat (ts + 10000)] out0 False = Inr (out, t)"
  proof (rule time_loop_agree [OF tl])
    show "nat (ts + 10000) < length out0" using al by simp
    show "\<forall>rw \<in> set out0. length rw = N" using al by simp
    show "upd2 (out ! n) k = upd1 (out ! n) k"
      if "0 \<le> n" "n < nat (ts + 10000)" "k < N" "reached out n k" for n k
      by (rule agree) (use that in auto)
  qed
  with a show ?thesis
    by (simp add: attempt_def)
qed

lemma calc_loop_cong:
  assumes "\<And>draw. attempt upd1 ts N draw = attempt upd2 ts N draw"
  shows "calc_loop upd1 ts N rnd c = calc_loop upd2 ts N rnd c"
proof (induction "11 - c" arbitrary: c rule: less_induct)
  case less
  show ?case
  proof (cases "attempt upd1 ts N (rnd (c + 1))")
    case (Inl e)
    then have "attempt upd2 ts N (rnd (c + 1)) = Inl e"
      using assms by simp
    with Inl show ?thesis
      using calc_loop_error [of upd1 ts N rnd c e] calc_loop_error [of upd2 ts N rnd c e]
      by simp
  next
    case (Inr p)
    obtain out1 t1 where p: "p = (out1, t1)"
      by (cases p)
    note a1 = Inr [unfolded p]
    have a2: "attempt upd2 ts N (rnd (c + 1)) = Inr (out1, t1)"
      using a1 assms by simp
    note u1 = calc_loop_unfold [of upd1 ts N rnd c out1 t1, OF a1]
    note u2 = calc_loop_unfold [of upd2 ts N rnd c out1 t1, OF a2]
    show ?thesis
    proof (cases "\<not> t1 \<or> 10 < c + 1")
      case True
      with u1 u2 show ?thesis by simp
    next
      case False
      then have "11 - (c + 1) < 11 - c"
        by linarith
      from less [OF this] u1 u2 False show ?thesis
        by simp
    qed
  qed
qed

lemma node_loop_unflagged:
  "node_loop upd x ks new t = Inr (new', False) \<Longrightarrow> distinct ks \<Longrightarrow>
   set ks \<subseteq> {..<length new} \<Longrightarrow> k \<in> set ks \<Longrightarrow> \<not> (new' ! k = Num 0 \<and> x ! k = Num 0)"
proof (induction ks arbitrary: new)
  case Nil
  then show ?case by simp
next
  case (Cons j ks)
  from Cons.prems(1) obtain v where v: "upd x j = Inr v"
    by (auto split: sum.splits)
  with Cons.prems(1) have nostop: "\<not> (v = Num 0 \<and> x ! j = Num 0)"
    by (auto split: if_splits)
  with Cons.prems(1) v
  have rec: "node_loop upd x ks (new[j := v]) t = Inr (new', False)"
    by auto
  show ?case
  proof (cases "k = j")
    case True
    have "new' ! j = (new[j := v]) ! j"
      using node_loop_untouched [OF rec, of j] Cons.prems(2) by simp
    with True nostop Cons.prems(3) show ?thesis by simp
  next
    case False
    with Cons.prems have "k \<in> set ks" "distinct ks" "set ks \<subseteq> {..<length (new[j := v])}"
      by auto
    with Cons.IH [OF rec] show ?thesis by simp
  qed
qed

lemma attempt_unflagged:
  assumes "attempt upd ts N draw = Inr (out, False)"
    and "n < nat (ts + 10000)" and "k < N"
  shows "\<not> stuck out n k"
proof -
  from assms(1) obtain out0 where
    a: "alloc ts N draw = Inr out0" and
    tl: "time_loop upd N [0..<nat (ts + 10000)] out0 False = Inr (out, False)"
    by (auto simp: attempt_def split: sum.splits)
  note al = alloc_Inr [OF a]
  have "\<exists>t1 t2. node_loop upd (out ! n) [0..<N] (out0 ! (n + 1)) t1 = Inr (out ! (n + 1), t2)
            \<and> (t1 \<longrightarrow> t2) \<and> (False \<longrightarrow> t1) \<and> (t2 \<longrightarrow> False)"
    by (rule time_loop_step [OF tl]) (use al assms(2) in auto)
  then obtain t1 where
    nl: "node_loop upd (out ! n) [0..<N] (out0 ! (n + 1)) t1 = Inr (out ! (n + 1), False)"
    by auto
  have len: "length (out0 ! (n + 1)) = N"
    using al assms(2) by simp
  have "\<not> (out ! (n + 1) ! k = Num 0 \<and> out ! n ! k = Num 0)"
    by (rule node_loop_unflagged [OF nl]) (use len assms(3) in auto)
  then show ?thesis
    by (simp add: stuck_def)
qed

subsection \<open>The two engines\<close>

lemma scheme_calc_eq:
  "scheme_calc fl scheme ts r A sigma N rnd =
     map_sum id fst (calc_loop (scheme_node fl scheme A r sigma N) ts N rnd 0)"
  by (cases scheme) (simp_all add: diffusivecalc_def kanekocalc_def)

lemma scheme_calc_Inr:
  assumes "scheme_calc fl scheme ts r A sigma N rnd = Inr out"
  shows "\<exists>c t. calc_loop (scheme_node fl scheme A r sigma N) ts N rnd 0 = Inr (out, c, t)"
proof (cases "calc_loop (scheme_node fl scheme A r sigma N) ts N rnd 0")
  case (Inl e)
  with assms show ?thesis by (simp add: scheme_calc_eq)
next
  case (Inr p)
  with assms show ?thesis by (cases p) (auto simp: scheme_calc_eq)
qed

lemma scheme_calc_attempt:
  assumes "scheme_calc fl scheme ts r A sigma N rnd = Inr out"
  shows "\<exists>c t. 1 \<le> c \<and> c \<le> 11
           \<and> attempt (scheme_node fl scheme A r sigma N) ts N (rnd c) = Inr (out, t)"
proof -
  from scheme_calc_Inr [OF assms] obtain c t where
    "calc_loop (scheme_node fl scheme A r sigma N) ts N rnd 0 = Inr (out, c, t)"
    by blast
  from calc_loop_result [OF this] show ?thesis
    by (intro exI [of _ c] exI [of _ t]) auto
qed

lemma scheme_attempt_ok:
  assumes "square A N" "N \<le> length r" "0 < ts + 10001"
  shows "\<exists>out t. attempt (scheme_node fl scheme A r sigma N) ts N draw = Inr (out, t)"
proof (rule attempt_ok [OF _ assms(3)])
  show "\<exists>v. scheme_node fl scheme A r sigma N x k = Inr v" if "k < N" for x k
    using scheme_node_ok [OF assms(1) that] assms(2) that by simp
qed

lemma scheme_loop_ok:
  assumes "square A N" "N \<le> length r" "0 < ts + 10001"
  shows "\<exists>out c t. calc_loop (scheme_node fl scheme A r sigma N) ts N rnd c0 = Inr (out, c, t)"
  by (rule calc_loop_ok) (rule scheme_attempt_ok [OF assms])

lemma scheme_calc_ok:
  assumes "square A N" "N \<le> length r" "0 < ts + 10001"
  shows "\<exists>out. scheme_calc fl scheme ts r A sigma N rnd = Inr out"
proof -
  from scheme_loop_ok [OF assms] obtain out c t where
    "calc_loop (scheme_node fl scheme A r sigma N) ts N rnd 0 = Inr (out, c, t)"
    by blast
  then show ?thesis
    by (simp add: scheme_calc_eq)
qed

lemma scheme_calc_shape:
  assumes "scheme_calc fl scheme ts r A sigma N rnd = Inr out"
  shows "0 < ts + 10001" and "length out = nat (ts + 10000) + 1"
    and "\<forall>rw \<in> set out. length rw = N"
proof -
  from scheme_calc_attempt [OF assms] obtain c t where
    att: "attempt (scheme_node fl scheme A r sigma N) ts N (rnd c) = Inr (out, t)"
    by blast
  show "0 < ts + 10001" "length out = nat (ts + 10000) + 1" "\<forall>rw \<in> set out. length rw = N"
    using attempt_shape [OF att] by simp_all
qed

lemma coupled_step:
  assumes "attempt (scheme_node fl scheme A r sigma N) ts N draw = Inr (out, t)"
    and "square A N" and "k < N" and "k < length r" and "0 < indeg A N k"
    and "n < nat (ts + 10000)" and "reached out n k"
  shows "out ! (n + 1) ! k = update_expr fl scheme A r sigma N (out ! n) k"
proof -
  have "scheme_node fl scheme A r sigma N (out ! n) k = Inr (out ! (n + 1) ! k)"
    by (rule attempt_entry [OF assms(1,6,3,7)])
  then show ?thesis
    using scheme_node_coupled [OF assms(2,3,4,5), of fl scheme sigma "out ! n"] by simp
qed

lemma source_step:
  assumes "attempt (scheme_node fl scheme A r sigma N) ts N draw = Inr (out, t)"
    and "square A N" and "k < N" and "k < length r" and "indeg A N k = 0"
    and "n < nat (ts + 10000)" and "reached out n k"
  shows "out ! (n + 1) ! k = logistic fl (r ! k) (out ! n ! k)"
proof -
  have "scheme_node fl scheme A r sigma N (out ! n) k = Inr (out ! (n + 1) ! k)"
    by (rule attempt_entry [OF assms(1,6,3,7)])
  then show ?thesis
    using scheme_node_source [OF assms(2,3,4,5), of fl scheme sigma "out ! n"] by simp
qed

lemma source_iter:
  assumes "attempt (scheme_node fl scheme A r sigma N) ts N draw = Inr (out, t)"
    and "square A N" and "k < N" and "k < length r" and "indeg A N k = 0"
  shows "n \<le> nat (ts + 10000) \<Longrightarrow> (\<forall>m<n. reached out m k) \<Longrightarrow>
         out ! n ! k = (logistic fl (r ! k) ^^ n) (Num (draw k))"
proof (induction n)
  case 0
  then show ?case
    using attempt_shape(4) [OF assms(1)] assms(3) by simp
next
  case (Suc n)
  have "out ! (n + 1) ! k = logistic fl (r ! k) (out ! n ! k)"
    by (rule source_step [OF assms]) (use Suc.prems in auto)
  moreover have "out ! n ! k = (logistic fl (r ! k) ^^ n) (Num (draw k))"
    by (rule Suc.IH) (use Suc.prems in auto)
  ultimately show ?case by simp
qed

subsection \<open>The example inputs\<close>

lemma rounding_exact: "rounding exact"
  by (auto simp: rounding_def exact_def)

lemma double_vals:
  "double 0 = Num 0" "double 1 = Num 1" "double 2 = Num 2" "double 3 = Num 3"
  "double 4 = Num 4" "double (1 / 2) = Num (1 / 2)" "double (1 / 4) = Num (1 / 4)"
  "double (3 / 4) = Num (3 / 4)" "double (3 / 2) = Num (3 / 2)"
  "double (1 / 8) = Num (1 / 8)" "double (5 / 8) = Num (5 / 8)"
  "double (- (1 / 2)) = Num (- (1 / 2))" "double (- (1 / 8)) = Num (- (1 / 8))"
  using double_int [of 0] double_int [of 1] double_int [of 2] double_int [of 3]
    double_int [of 4] double_dyadic [of 1 1] double_dyadic [of 1 2] double_dyadic [of 3 2]
    double_dyadic [of 3 1] double_dyadic [of 1 3] double_dyadic [of 5 3]
    double_dyadic [of "- 1" 1] double_dyadic [of "- 1" 3]
  by simp_all

lemma chain2_square: "square chain2 2"
  by (simp add: square_def chain2_def)

lemma apart2_square: "square apart2 2"
  by (simp add: square_def apart2_def)

lemma upt_0_2: "[0..<2] = [0, Suc 0]"
  by (simp add: upt_rec [of 0 2] upt_rec [of "Suc 0" 2])

lemma chain2_indeg: "indeg chain2 2 0 = 0" "indeg chain2 2 (Suc 0) = 1"
  by (simp_all add: indeg_def preds_def chain2_def upt_0_2)

lemma chain2_preds: "preds chain2 2 (Suc 0) = [0]"
  by (simp add: preds_def chain2_def upt_0_2)

lemma apart2_indeg: "indeg apart2 2 0 = 0" "indeg apart2 2 (Suc 0) = 0"
  by (simp_all add: indeg_def preds_def apart2_def upt_0_2)

lemma length_one: "length xs = 1 \<Longrightarrow> \<exists>y. xs = [y]"
  by (cases xs) auto

lemma length_two: "length xs = 2 \<Longrightarrow> \<exists>a b. xs = [a, b]"
  by (auto simp: length_Suc_conv numeral_2_eq_2)

lemma replicate_2: "replicate 2 v = [v, v]"
  by (simp add: numeral_2_eq_2)

lemma row0_of_draws:
  assumes "attempt upd ts 2 draw = Inr (out, t)"
  shows "out ! 0 = [Num (draw 0), Num (draw (Suc 0))]"
  using attempt_shape(4) [OF assms] by (simp add: upt_0_2)

lemma logistic_exact: "logistic exact (Num a) (Num b) = Num (a * b * (1 - b))"
  by (simp add: logistic_def fsub_def exact_def)

lemma logistic_half:
  "(logistic double (Num 4) ^^ 2) (Num (1 / 2)) = Num 0"
  "(logistic double (Num 4) ^^ 3) (Num (1 / 2)) = Num 0"
  by (simp_all add: logistic_def fsub_def eval_nat_numeral double_vals)

lemma half_flagged:
  assumes att: "attempt (scheme_node double scheme chain2 r4 sigma 2) ts 2 (half_rnd c)
      = Inr (out, t)"
    and T: "3 \<le> nat (ts + 10000)"
  shows t
proof (rule ccontr)
  assume "\<not> t"
  with att have att': "attempt (scheme_node double scheme chain2 r4 sigma 2) ts 2 (half_rnd c)
      = Inr (out, False)"
    by simp
  have reach: "reached out m 0" for m
    by (simp add: reached_def)
  have it: "out ! n ! 0 = (logistic double (r4 ! 0) ^^ n) (Num (half_rnd c 0))"
    if "n \<le> nat (ts + 10000)" for n
    by (rule source_iter [OF att' chain2_square _ _ chain2_indeg(1) that])
       (simp_all add: r4_def reach)
  have "out ! 2 ! 0 = Num 0" "out ! 3 ! 0 = Num 0"
    using it [of 2] it [of 3] T logistic_half by (simp_all add: r4_def half_rnd_def)
  then have "stuck out 2 0"
    by (simp add: stuck_def)
  moreover have "\<not> stuck out 2 0"
    by (rule attempt_unflagged [OF att']) (use T in auto)
  ultimately show False by simp
qed

lemma half_exhausted:
  "\<exists>out. calc_loop (scheme_node double scheme chain2 r4 sigma 2) 1000 2 half_rnd 0
     = Inr (out, 11, True)"
proof -
  have "\<exists>out c t. calc_loop (scheme_node double scheme chain2 r4 sigma 2) 1000 2 half_rnd 0
          = Inr (out, c, t)"
    by (rule scheme_loop_ok [OF chain2_square]) (simp_all add: r4_def)
  then obtain out c t where
    cl: "calc_loop (scheme_node double scheme chain2 r4 sigma 2) 1000 2 half_rnd 0
           = Inr (out, c, t)"
    by blast
  note res = calc_loop_result [OF cl]
  have t
    by (rule half_flagged [of scheme sigma 1000 c out]) (use res in auto)
  with res have "c = 11"
    by auto
  with cl \<open>t\<close> show ?thesis
    by auto
qed

text \<open>A first node that is drawn zero ends the first step at once.\<close>

lemma zero_draw_first_step:
  assumes att: "attempt (scheme_node fl scheme A r sigma 2) ts 2 draw = Inr (out, t)"
    and fl: "rounding fl" and sq: "square A 2" and len: "2 \<le> length r"
    and src: "indeg A 2 0 = 0" and r0: "is_num (r ! 0)"
    and draw: "draw 0 = 0" and T: "0 < ts + 10000"
  shows "out ! 0 = [Num 0, Num (draw (Suc 0))]" and "out ! 1 = [Num 0, NaN]"
proof -
  show row0: "out ! 0 = [Num 0, Num (draw (Suc 0))]"
    using row0_of_draws [OF att] draw by simp
  from r0 obtain a where a: "r ! 0 = Num a"
    by (cases "r ! 0") simp_all
  have "logistic fl (Num a) (Num 0) = Num 0"
    using fl by (simp add: logistic_def fsub_def rounding_def)
  moreover have "0 < length r"
    using len by (cases r) simp_all
  moreover have "(0::nat) < 2"
    by simp
  ultimately have upd: "scheme_node fl scheme A r sigma 2 (out ! 0) 0 = Inr (Num 0)"
    using scheme_node_source [OF sq _ _ src, of r fl scheme sigma "out ! 0"] a row0
    by simp
  from attempt_step_row [OF att, of 0] T obtain t2 where
    "node_loop (scheme_node fl scheme A r sigma 2) (out ! 0) [0..<2] (replicate 2 NaN) False
       = Inr (out ! (0 + 1), t2)"
    by auto
  with upd row0 show "out ! 1 = [Num 0, NaN]"
    by (simp add: upt_0_2 replicate_2)
qed

subsection \<open>The node count is read from the second row\<close>

text \<open>
  Claim C10. \<^verbatim>\<open>nonodes=len(A[1,:])\<close> reads row 1 of the adjacency matrix, so a matrix
  with fewer than two rows, the 1-by-1 matrix of a single node among them, makes the call
  fail with an index error, whatever the other arguments are and before anything is
  computed.
\<close>

theorem coupledlogistic_needs_two_rows:
  "length A < 2 \<Longrightarrow> coupledlogistic fl tslength r A sigma couplingtype rnd = Inl IndexError"
proof -
  assume short: "length A < 2"
  then have "A = [] \<or> (\<exists>rw. A = [rw])"
    by (cases A) auto
  then have "\<not> ragged A"
    by (auto simp: ragged_def)
  with short show ?thesis
    by (simp add: coupledlogistic_def)
qed

theorem coupledlogistic_needs_two_rows_witness:
  "length [[0::int]] < 2
     \<and> coupledlogistic double 1000 (RInt 4) [[0]] (Num (1 / 4)) ''diffusive'' half_rnd
         = Inl IndexError"
  using coupledlogistic_needs_two_rows
    [of "[[0]]" double 1000 "RInt 4" "Num (1 / 4)" "''diffusive''" half_rnd]
  by simp

subsection \<open>The retry loop\<close>

text \<open>
  Claim C6. On an input that raises no exception, the retry loop returns after \<open>c\<close>
  attempts with \<open>1 \<le> c \<le> 11\<close>. Attempt number \<open>i\<close> starts from the draw \<open>rnd i\<close>; the buffer
  returned is the one of attempt \<open>c\<close>, every attempt before it was flagged, and a flagged
  buffer is returned (as a value, not as an error) only from attempt 11.
\<close>

theorem retry_bounded:
  assumes "square A N" and "N \<le> length r" and "0 < tslength + 10001"
  shows "\<exists>out c temp.
           calc_loop (scheme_node fl scheme A r sigma N) tslength N rnd 0 = Inr (out, c, temp)
           \<and> scheme_calc fl scheme tslength r A sigma N rnd = Inr out
           \<and> 1 \<le> c \<and> c \<le> 11
           \<and> attempt (scheme_node fl scheme A r sigma N) tslength N (rnd c) = Inr (out, temp)
           \<and> out ! 0 = map (\<lambda>k. Num (rnd c k)) [0..<N]
           \<and> (temp \<longrightarrow> c = 11)
           \<and> (\<forall>i. 1 \<le> i \<and> i < c \<longrightarrow>
                (\<exists>out1. attempt (scheme_node fl scheme A r sigma N) tslength N (rnd i)
                           = Inr (out1, True)))"
proof -
  from scheme_loop_ok [OF assms] obtain out c t where
    cl: "calc_loop (scheme_node fl scheme A r sigma N) tslength N rnd 0 = Inr (out, c, t)"
    by blast
  note res = calc_loop_result [OF cl]
  have att: "attempt (scheme_node fl scheme A r sigma N) tslength N (rnd c) = Inr (out, t)"
    using res by simp
  have "scheme_calc fl scheme tslength r A sigma N rnd = Inr out"
    using cl by (simp add: scheme_calc_eq)
  moreover have "out ! 0 = map (\<lambda>k. Num (rnd c k)) [0..<N]"
    by (rule attempt_shape(4) [OF att])
  moreover have "1 \<le> c \<and> c \<le> 11 \<and> (t \<longrightarrow> c = 11)"
    using res by auto
  moreover have "\<forall>i. 1 \<le> i \<and> i < c \<longrightarrow>
      (\<exists>out1. attempt (scheme_node fl scheme A r sigma N) tslength N (rnd i) = Inr (out1, True))"
    using res by auto
  ultimately show ?thesis
    using cl att by blast
qed

theorem retry_bounded_witness:
  "\<exists>out. calc_loop (scheme_node double Diffusive chain2 r4 (Num (1 / 4)) 2) 1000 2 half_rnd 0
            = Inr (out, 11, True)
     \<and> diffusivecalc double 1000 r4 chain2 (Num (1 / 4)) 2 half_rnd = Inr out
     \<and> attempt (scheme_node double Diffusive chain2 r4 (Num (1 / 4)) 2) 1000 2 (half_rnd 11)
          = Inr (out, True)"
proof -
  from half_exhausted [of Diffusive "Num (1 / 4)"] obtain out0 where
    ex: "calc_loop (scheme_node double Diffusive chain2 r4 (Num (1 / 4)) 2) 1000 2 half_rnd 0
           = Inr (out0, 11, True)"
    by blast
  have "square chain2 2 \<and> 2 \<le> length r4 \<and> (0::int) < 1000 + 10001"
    by (simp add: chain2_square r4_def)
  with retry_bounded [of chain2 2 r4 1000 double Diffusive "Num (1 / 4)" half_rnd] ex
  show ?thesis
    by auto
qed

subsection \<open>The test for the not-a-number\<close>

text \<open>
  Claim C8. The comparison of a value with the not-a-number is never true, so the first
  branch of the degeneracy check never fires: whenever the loop goes into another attempt,
  the attempt it discards has a node that is zero in two consecutive rows.
\<close>

theorem nan_branch_inert:
  "\<not> feq v NaN \<and>
   (calc_loop upd tslength N rnd 0 = Inr (out, c, temp) \<longrightarrow> 1 \<le> i \<longrightarrow> i < c \<longrightarrow>
      (\<exists>out1 n k. attempt upd tslength N (rnd i) = Inr (out1, True)
         \<and> n < nat (tslength + 10000) \<and> k < N \<and> stuck out1 n k))"
proof (intro conjI impI)
  show "\<not> feq v NaN" by simp
next
  assume cl: "calc_loop upd tslength N rnd 0 = Inr (out, c, temp)" and i: "1 \<le> i" "i < c"
  have "\<forall>j. 0 < j \<and> j < c \<longrightarrow> (\<exists>out1. attempt upd tslength N (rnd j) = Inr (out1, True))"
    using calc_loop_result [OF cl] by simp
  moreover have "0 < i \<and> i < c"
    using i by simp
  ultimately obtain out1 where
    att: "attempt upd tslength N (rnd i) = Inr (out1, True)"
    by blast
  from attempt_flagged [OF att] att
  show "\<exists>out1 n k. attempt upd tslength N (rnd i) = Inr (out1, True)
         \<and> n < nat (tslength + 10000) \<and> k < N \<and> stuck out1 n k"
    by blast
qed

theorem nan_branch_inert_witness:
  "\<not> feq NaN NaN \<and>
   (\<exists>out out1 n k.
      calc_loop (scheme_node double Kaneko chain2 r4 (Num (1 / 4)) 2) 1000 2 half_rnd 0
        = Inr (out, 11, True)
      \<and> attempt (scheme_node double Kaneko chain2 r4 (Num (1 / 4)) 2) 1000 2 (half_rnd 1)
          = Inr (out1, True)
      \<and> n < nat (1000 + 10000) \<and> k < 2 \<and> stuck out1 n k)"
proof -
  from half_exhausted [of Kaneko "Num (1 / 4)"] obtain out where
    ex: "calc_loop (scheme_node double Kaneko chain2 r4 (Num (1 / 4)) 2) 1000 2 half_rnd 0
           = Inr (out, 11, True)"
    by blast
  with nan_branch_inert
    [of NaN "scheme_node double Kaneko chain2 r4 (Num (1 / 4)) 2" 1000 2 half_rnd out 11 True 1]
  show ?thesis
    by auto
qed

subsection \<open>The cut and the shape of the result\<close>

lemma square_not_ragged: "square A N \<Longrightarrow> \<not> ragged A"
proof (cases A)
  case Nil
  then show ?thesis by (simp add: ragged_def)
next
  case (Cons rw rws)
  assume "square A N"
  then have "\<forall>rw \<in> set A. length rw = N"
    by (simp add: square_def list_all_iff)
  with Cons show ?thesis
    by (auto simp: ragged_def)
qed

lemma coupledlogistic_scheme:
  assumes "square A N" and "2 \<le> N"
  shows "coupledlogistic fl ts r A sigma (scheme_name scheme) rnd =
     (case resolve_r fl r N of
        Inl e \<Rightarrow> Inl e
      | Inr r' \<Rightarrow>
          (case scheme_calc fl scheme ts r' A sigma N rnd of
             Inl e \<Rightarrow> Inl e
           | Inr out \<Rightarrow> postprocess fl N out))"
proof -
  have len: "length A = N" and row: "length (A ! 1) = N"
    using assms by (simp_all add: square_def list_all_length)
  show ?thesis
    using square_not_ragged [OF assms(1)] len row assms(2)
    by (cases scheme; cases "resolve_r fl r N") (simp_all add: coupledlogistic_def)
qed

lemma pymin_Inr: "x \<noteq> [] \<Longrightarrow> \<exists>m. pymin x = Inr m"
  by (cases x) simp_all

lemma pymax_Inr: "x \<noteq> [] \<Longrightarrow> \<exists>m. pymax x = Inr m"
  by (cases x) simp_all

lemma normal_Inr: "x \<noteq> [] \<Longrightarrow> \<exists>y. normal fl x = Inr y \<and> length y = length x"
  using pymin_Inr [of x] pymax_Inr [of x] by (auto simp: normal_def)

lemma normal_length: "normal fl x = Inr y \<Longrightarrow> length y = length x"
  by (auto simp: normal_def split: sum.splits)

lemma normal_empty: "normal fl [] = Inl ValueError"
  by (simp add: normal_def)

lemma set_map2_update:
  "rw' \<in> set (map2 (\<lambda>rw v. rw[i := v]) out col) \<Longrightarrow> \<exists>rw \<in> set out. length rw' = length rw"
  by (auto simp: set_zip)

lemma normalize_cols_shape:
  "out \<noteq> [] \<Longrightarrow> \<forall>rw \<in> set out. length rw = N \<Longrightarrow>
   \<exists>out'. normalize_cols fl is out = Inr out' \<and> length out' = length out
      \<and> (\<forall>rw \<in> set out'. length rw = N)"
proof (induction "is" arbitrary: out)
  case Nil
  then show ?case by simp
next
  case (Cons i "is")
  from Cons.prems(1) have "map (\<lambda>rw. rw ! i) out \<noteq> []"
    by simp
  from normal_Inr [OF this] obtain col where
    col: "normal fl (map (\<lambda>rw. rw ! i) out) = Inr col" and len: "length col = length out"
    by auto
  let ?out2 = "map2 (\<lambda>rw v. rw[i := v]) out col"
  have len2: "length ?out2 = length out"
    using len by simp
  then have ne: "?out2 \<noteq> []"
    using Cons.prems(1) by auto
  have rows: "\<forall>rw \<in> set ?out2. length rw = N"
    using Cons.prems(2) set_map2_update [of _ i out col] by metis
  from Cons.IH [OF ne rows] col len2 show ?case
    by auto
qed

lemma normalize_cols_empty:
  "is \<noteq> [] \<Longrightarrow> normalize_cols fl is [] = Inl ValueError"
  by (cases "is") (simp_all add: normal_empty)

lemma coupledlogistic_returns:
  assumes "square A N" and "2 \<le> N" and "resolve_r fl r N = Inr r'" and "N \<le> length r'"
    and "2 \<le> ts"
  shows "\<exists>raw out. scheme_calc fl scheme ts r' A sigma N rnd = Inr raw
           \<and> coupledlogistic fl ts r A sigma (scheme_name scheme) rnd = Inr out
           \<and> postprocess fl N raw = Inr out
           \<and> int (length out) = ts - 1 \<and> (\<forall>rw \<in> set out. length rw = N)"
proof -
  have pos: "0 < ts + 10001"
    using assms(5) by simp
  from scheme_calc_ok [OF assms(1,4) pos] obtain raw where
    raw: "scheme_calc fl scheme ts r' A sigma N rnd = Inr raw"
    by blast
  note sh = scheme_calc_shape [OF raw]
  let ?cut = "drop 10002 raw"
  have cutlen: "int (length ?cut) = ts - 1"
    using sh(2) assms(5) by simp
  then have ne: "?cut \<noteq> []"
    using assms(5) by auto
  have rows: "\<forall>rw \<in> set ?cut. length rw = N"
    using sh(3) by (meson in_set_dropD)
  from normalize_cols_shape [OF ne rows, of fl "[0..<N]"] obtain out where
    out: "normalize_cols fl [0..<N] ?cut = Inr out" "length out = length ?cut"
      "\<forall>rw \<in> set out. length rw = N"
    by blast
  have "coupledlogistic fl ts r A sigma (scheme_name scheme) rnd = Inr out"
    using coupledlogistic_scheme [OF assms(1,2)] assms(3) raw out(1)
    by (simp add: postprocess_def)
  with raw out cutlen show ?thesis
    by (auto simp: postprocess_def)
qed

lemma valid_r_resolve:
  "valid_r fl r N \<Longrightarrow> \<exists>r'. resolve_r fl r N = Inr r' \<and> length r' = N"
  by (cases r) auto

text \<open>
  Claim C1, as the code has it. On a valid input (a square matrix of at least two nodes,
  a parameter that fits, one of the two coupling types) with \<open>tslength \<ge> 2\<close>, the call
  returns a table with \<open>nonodes\<close> columns and \<open>tslength - 1\<close> rows: the buffer has
  \<open>tslength + 10001\<close> rows and the cut removes 10002 of them. The claim and the docstring
  promise \<open>tslength\<close> rows.
\<close>

theorem output_rows:
  assumes "square A N" and "2 \<le> N" and "valid_r fl r N" and "2 \<le> tslength"
  shows "\<exists>out. coupledlogistic fl tslength r A sigma (scheme_name scheme) rnd = Inr out
           \<and> int (length out) = tslength - 1 \<and> (\<forall>rw \<in> set out. length rw = N)"
proof -
  from valid_r_resolve [OF assms(3)] obtain r' where
    r': "resolve_r fl r N = Inr r'" "length r' = N"
    by blast
  then have "N \<le> length r'"
    by simp
  from coupledlogistic_returns [OF assms(1,2) r'(1) this assms(4)] show ?thesis
    by blast
qed

theorem output_rows_witness:
  "\<exists>out. coupledlogistic double 1000 (RInt 4) chain2 (Num (1 / 4)) ''diffusive'' half_rnd
            = Inr out
     \<and> length out = 999 \<and> list_all (\<lambda>rw. length rw = 2) out"
proof -
  have "square chain2 2 \<and> (2::nat) \<le> 2 \<and> valid_r double (RInt 4) 2 \<and> (2::int) \<le> 1000"
    by (simp add: chain2_square double_vals)
  with output_rows [of chain2 2 double "RInt 4" 1000 "Num (1 / 4)" Diffusive half_rnd]
  show ?thesis
    by (auto simp: list_all_iff)
qed

lemma empty_table_ValueError:
  assumes "square A N" and "2 \<le> N" and "resolve_r fl r N = Inr r'" and "N \<le> length r'"
    and "- 10000 \<le> ts" and "ts \<le> 1"
  shows "coupledlogistic fl ts r A sigma (scheme_name scheme) rnd = Inl ValueError"
proof -
  have pos: "0 < ts + 10001"
    using assms(5) by simp
  from scheme_calc_ok [OF assms(1,4) pos] obtain raw where
    raw: "scheme_calc fl scheme ts r' A sigma N rnd = Inr raw"
    by blast
  have "drop 10002 raw = []"
    using scheme_calc_shape(2) [OF raw] assms(6) by simp
  moreover have "[0..<N] \<noteq> []"
    using assms(2) by simp
  ultimately have "postprocess fl N raw = Inl ValueError"
    by (simp add: postprocess_def normalize_cols_empty)
  then show ?thesis
    using coupledlogistic_scheme [OF assms(1,2)] assms(3) raw by simp
qed

subsection \<open>A parameter that is not a number\<close>

lemma next_value_nan:
  "k < length r \<Longrightarrow> r ! k = NaN \<Longrightarrow> next_value fl r sigma x k s d = Inr NaN"
  by (simp add: next_value_def)

lemma scheme_node_nan:
  assumes "square A N" and "k < N" and "k < length r" and "r ! k = NaN"
  shows "scheme_node fl scheme A r sigma N x k = Inr NaN"
  using scheme_sum [OF assms(1,2,3), of fl scheme sigma x] next_value_nan [OF assms(3,4)]
  by simp

lemma node_loop_nan:
  "(\<And>k. k \<in> set ks \<Longrightarrow> upd x k = Inr NaN) \<Longrightarrow>
   (\<And>k. k \<in> set ks \<Longrightarrow> k < length new \<Longrightarrow> new ! k = NaN) \<Longrightarrow>
   node_loop upd x ks new t = Inr (new, t)"
proof (induction ks)
  case Nil
  then show ?case by simp
next
  case (Cons k ks)
  have upd: "upd x k = Inr NaN"
    by (rule Cons.prems(1)) simp
  have same: "new[k := NaN] = new"
  proof (cases "k < length new")
    case True
    then have "new ! k = NaN"
      using Cons.prems(2) [of k] by simp
    then show ?thesis
      by (metis list_update_id)
  next
    case False
    then show ?thesis by (simp add: list_update_beyond)
  qed
  have "node_loop upd x ks new t = Inr (new, t)"
    by (rule Cons.IH) (simp_all add: Cons.prems)
  with upd same show ?case
    by simp
qed

lemma time_loop_nan:
  "(\<And>x k. k < N \<Longrightarrow> upd x k = Inr NaN) \<Longrightarrow>
   (\<And>n. n \<in> set ns \<Longrightarrow> out ! (n + 1) = replicate N NaN) \<Longrightarrow>
   time_loop upd N ns out t = Inr (out, t)"
proof (induction ns)
  case Nil
  then show ?case by simp
next
  case (Cons n ns)
  have row: "out ! Suc n = replicate N NaN"
    using Cons.prems(2) [of n] by simp
  have "node_loop upd (out ! n) [0..<N] (out ! Suc n) t = Inr (out ! Suc n, t)"
    by (rule node_loop_nan) (simp_all add: Cons.prems(1) row)
  moreover have "out[Suc n := out ! Suc n] = out"
    by (rule list_update_id)
  moreover have "time_loop upd N ns out t = Inr (out, t)"
  proof (rule Cons.IH)
    show "upd x k = Inr NaN" if "k < N" for x k
      by (rule Cons.prems(1) [OF that])
    show "out ! (m + 1) = replicate N NaN" if "m \<in> set ns" for m
      using Cons.prems(2) [of m] that by simp
  qed
  ultimately show ?case
    by simp
qed

lemma attempt_nan:
  assumes "\<And>x k. k < N \<Longrightarrow> upd x k = Inr NaN" and "0 < ts + 10001"
  shows "attempt upd ts N draw =
     Inr ((replicate (nat (ts + 10001)) (replicate N NaN))
            [0 := map (\<lambda>k. Num (draw k)) [0..<N]], False)"
proof -
  let ?out0 = "(replicate (nat (ts + 10001)) (replicate N NaN))
            [0 := map (\<lambda>k. Num (draw k)) [0..<N]]"
  have a: "alloc ts N draw = Inr ?out0"
    using assms(2) by (simp add: alloc_def)
  have "time_loop upd N [0..<nat (ts + 10000)] ?out0 False = Inr (?out0, False)"
  proof (rule time_loop_nan)
    show "upd x k = Inr NaN" if "k < N" for x k
      by (rule assms(1) [OF that])
    show "?out0 ! (n + 1) = replicate N NaN" if "n \<in> set [0..<nat (ts + 10000)]" for n
    proof -
      have "n + 1 < nat (ts + 10001)"
        using that assms(2) by auto
      then show ?thesis by simp
    qed
  qed
  with a show ?thesis
    by (simp add: attempt_def)
qed

lemma calc_loop_nan:
  assumes "\<And>x k. k < N \<Longrightarrow> upd x k = Inr NaN" and "0 < ts + 10001"
  shows "calc_loop upd ts N rnd 0 =
     Inr ((replicate (nat (ts + 10001)) (replicate N NaN))
            [0 := map (\<lambda>k. Num (rnd 1 k)) [0..<N]], 1, False)"
  using calc_loop_unfold [of upd ts N rnd 0,
      OF attempt_nan [of N upd ts "rnd (0 + 1)", OF assms]]
  by simp

lemma normalize_nan_rows:
  "normalize_cols fl [0, Suc 0] [[NaN, NaN], [NaN, NaN]] = Inr [[NaN, NaN], [NaN, NaN]]"
  by (simp add: normal_def)

text \<open>
  Claim C7 on the code. With \<^verbatim>\<open>r = float('nan')\<close> on the graph \<open>X \<rightarrow> Y\<close>, whatever the
  coupling strength and the rounding, every value that the engine computes is the
  not-a-number, and yet the first attempt is not flagged: the loop returns after one
  attempt (\<open>count = 1\<close>, \<open>temp = 0\<close>) with a buffer whose rows after the initial one hold the
  not-a-number only, and the call returns a table of not-a-numbers. The test
  \<^verbatim>\<open>out[n+1,k]==np.nan\<close> that was meant to flag such an attempt is never true.
\<close>

theorem nan_computed_not_flagged:
  "calc_loop (diffusive_node fl chain2 rnan sigma 2) 3 2 half_rnd 0
     = Inr ((replicate 10004 [NaN, NaN])[0 := [Num (1 / 2), Num (1 / 2)]], 1, False)
   \<and> coupledlogistic fl 3 (RFloat NaN) chain2 sigma ''diffusive'' half_rnd
       = Inr [[NaN, NaN], [NaN, NaN]]"
proof -
  let ?buf = "(replicate 10004 [NaN, NaN])[0 := [Num (1 / 2), Num (1 / 2)]]"
  have upd: "diffusive_node fl chain2 rnan sigma 2 x k = Inr NaN" if "k < 2" for x k
  proof -
    have nan: "rnan ! k = NaN"
      using that by (cases k) (auto simp: rnan_def less_Suc_eq numeral_2_eq_2)
    have len: "k < length rnan"
      using that by (simp add: rnan_def)
    have "scheme_node fl Diffusive chain2 rnan sigma 2 x k = Inr NaN"
      by (rule scheme_node_nan [OF chain2_square that len nan])
    then show ?thesis
      by simp
  qed
  have "calc_loop (diffusive_node fl chain2 rnan sigma 2) 3 2 half_rnd 0 =
     Inr ((replicate (nat (3 + 10001)) (replicate 2 NaN))
            [0 := map (\<lambda>k. Num (half_rnd 1 k)) [0..<2]], 1, False)"
    by (rule calc_loop_nan) (simp_all add: upd)
  moreover have two: "replicate 2 NaN = [NaN, NaN]"
    by (simp add: numeral_2_eq_2)
  moreover have "map (\<lambda>k. Num (half_rnd 1 k)) [0..<2] = [Num (1 / 2), Num (1 / 2)]"
    by (simp add: upt_0_2 half_rnd_def)
  ultimately have engine:
    "calc_loop (diffusive_node fl chain2 rnan sigma 2) 3 2 half_rnd 0 = Inr (?buf, 1, False)"
    by simp
  have "drop 10002 ?buf = drop 10002 (replicate 10004 [NaN, NaN])"
    by (rule drop_update_cancel) simp
  also have "\<dots> = replicate 2 [NaN, NaN]"
    by simp
  also have "\<dots> = [[NaN, NaN], [NaN, NaN]]"
    by (simp add: numeral_2_eq_2)
  finally have cut: "drop 10002 ?buf = [[NaN, NaN], [NaN, NaN]]" .
  have "postprocess fl 2 ?buf = Inr [[NaN, NaN], [NaN, NaN]]"
    unfolding postprocess_def cut upt_0_2 by (rule normalize_nan_rows)
  moreover have "resolve_r fl (RFloat NaN) 2 = Inr rnan"
    by (simp add: rnan_def numeral_2_eq_2)
  moreover have "scheme_calc fl Diffusive 3 rnan chain2 sigma 2 half_rnd = Inr ?buf"
    using engine by (simp add: diffusivecalc_def)
  ultimately have "coupledlogistic fl 3 (RFloat NaN) chain2 sigma (scheme_name Diffusive)
      half_rnd = Inr [[NaN, NaN], [NaN, NaN]]"
    using coupledlogistic_scheme [OF chain2_square, of fl 3 "RFloat NaN" sigma Diffusive
        half_rnd]
    by simp
  with engine show ?thesis
    by simp
qed
subsection \<open>The update rule\<close>

lemma zero_draw_unreached:
  assumes att: "attempt (scheme_node fl scheme A r sigma 2) ts 2 draw = Inr (out, t)"
    and fl: "rounding fl" and sq: "square A 2" and len: "2 \<le> length r"
    and src: "indeg A 2 0 = 0" and r0: "is_num (r ! 0)"
    and draw: "draw 0 = 0" and T: "0 < ts + 10000"
  shows "out ! 0 = [Num 0, Num (draw (Suc 0))]" and "\<not> reached out 0 (Suc 0)"
    and "out ! Suc 0 ! Suc 0 = NaN"
proof -
  note rows = zero_draw_first_step [OF att fl sq len src r0 draw T]
  show "out ! 0 = [Num 0, Num (draw (Suc 0))]"
    by (rule rows(1))
  show "\<not> reached out 0 (Suc 0)"
    using rows by (simp add: reached_def stuck_def)
  show "out ! Suc 0 ! Suc 0 = NaN"
    using rows(2) by simp
qed

lemma update_half_row:
  "update_expr double Diffusive chain2 r4 (Num (1 / 4)) 2 [Num (1 / 2), Num (1 / 2)] (Suc 0)
     = Num (3 / 4)"
  by (simp add: update_expr_def coupling_def chain2_preds chain2_indeg r4_def fsub_def
      double_vals)

lemma update_zero_half_row:
  "update_expr double Diffusive chain2 r4 (Num (1 / 4)) 2 [Num 0, Num (1 / 2)] (Suc 0)
     = Num (5 / 8)"
  "spec_next Diffusive chain2 r4 (Num (1 / 4)) 2 [Num 0, Num (1 / 2)] (Suc 0) = Num (5 / 8)"
  by (simp_all add: update_expr_def spec_next_def coupling_def chain2_preds chain2_indeg r4_def
      fsub_def logistic_def double_vals exact_def)

text \<open>
  Claim C2 as stated fails. On the graph \<open>X \<rightarrow> Y\<close> with \<open>r = 4\<close> and \<open>\<sigma> = 1/4\<close>, let every
  attempt draw \<open>0\<close> for \<open>X\<close> and \<open>1/2\<close> for \<open>Y\<close>. Node \<open>X\<close> is zero in rows 0 and 1, the loop
  over the nodes is left before it gets to \<open>Y\<close>, and the entry of \<open>Y\<close> in row 1 keeps the
  not-a-number that the buffer was filled with, in the buffer that the engine returns.
  \<open>Y\<close> has in-degree 1, and the formula of the claim on row 0 gives \<open>5/8\<close>, as does the
  expression of the code.
\<close>

theorem uncomputed_entry:
  "\<exists>out. diffusivecalc double 1000 r4 chain2 (Num (1 / 4)) 2 zero_half_rnd = Inr out
     \<and> out ! 0 = [Num 0, Num (1 / 2)] \<and> out ! 1 ! 1 = NaN
     \<and> indeg chain2 2 1 = 1
     \<and> spec_next Diffusive chain2 r4 (Num (1 / 4)) 2 (out ! 0) 1 = Num (5 / 8)
     \<and> update_expr double Diffusive chain2 r4 (Num (1 / 4)) 2 (out ! 0) 1 = Num (5 / 8)"
proof -
  have "\<exists>out. scheme_calc double Diffusive 1000 r4 chain2 (Num (1 / 4)) 2 zero_half_rnd = Inr out"
    by (rule scheme_calc_ok [OF chain2_square]) (simp_all add: r4_def)
  then obtain out where
    out: "scheme_calc double Diffusive 1000 r4 chain2 (Num (1 / 4)) 2 zero_half_rnd = Inr out"
    by blast
  from scheme_calc_attempt [OF out] obtain c t where
    att: "attempt (scheme_node double Diffusive chain2 r4 (Num (1 / 4)) 2) 1000 2
            (zero_half_rnd c) = Inr (out, t)"
    by blast
  have "out ! 0 = [Num 0, Num (zero_half_rnd c (Suc 0))]" and "out ! Suc 0 ! Suc 0 = NaN"
    by (rule zero_draw_unreached [OF att rounding_double chain2_square];
        simp add: r4_def chain2_indeg zero_half_rnd_def)+
  then have "out ! 0 = [Num 0, Num (1 / 2)]" and "out ! 1 ! 1 = NaN"
    by (simp_all add: zero_half_rnd_def)
  with out update_zero_half_row chain2_indeg(2) show ?thesis
    by auto
qed

text \<open>
  Claim C2, amended. In the buffer that an engine returns, take a step \<open>n\<close> and a node \<open>k\<close>
  of in-degree \<open>deg > 0\<close>. If the loop over the nodes gets to \<open>k\<close> in step \<open>n\<close> (no node
  listed before \<open>k\<close> is zero in rows \<open>n\<close> and \<open>n + 1\<close>, which is where the loop is left), the
  entry \<open>out[n+1,k]\<close> is the expression of the code on row \<open>n\<close>,
  \<open>(((1 - \<sigma>)\<cdot>r\<^sub>k)\<cdot>x\<^sub>k)\<cdot>(1 - x\<^sub>k) + \<sigma>\<cdot>(S/deg)\<close>, every operation rounded to a double, where \<open>S\<close>
  is accumulated from 0 over the predecessors \<open>l\<close> in increasing order, by
  \<open>S \<leftarrow> (S + x\<^sub>l) - x\<^sub>k\<close> (diffusive) or \<open>S \<leftarrow> S + (r\<^sub>k\<cdot>x\<^sub>l)\<cdot>(1 - x\<^sub>l)\<close> (Kaneko). Otherwise the
  entry is left as the not-a-number. In arithmetic without rounding the expression of the
  code has the value of the formula of the claim, \<open>(1 - \<sigma>)\<cdot>f(x\<^sub>k) + (\<sigma>/deg)\<cdot>S\<close>.
\<close>

theorem update_rule:
  assumes "scheme_calc fl scheme tslength r A sigma N rnd = Inr out"
    and "square A N" and "N \<le> length r"
    and "n < nat (tslength + 10000)" and "k < N" and "0 < indeg A N k"
  shows "(reached out n k \<longrightarrow>
            out ! (n + 1) ! k = update_expr fl scheme A r sigma N (out ! n) k)
     \<and> (\<not> reached out n k \<longrightarrow> out ! (n + 1) ! k = NaN)
     \<and> update_expr exact scheme A r sigma N (out ! n) k
         = spec_next scheme A r sigma N (out ! n) k"
proof (intro conjI impI)
  from scheme_calc_attempt [OF assms(1)] obtain c t where
    att: "attempt (scheme_node fl scheme A r sigma N) tslength N (rnd c) = Inr (out, t)"
    by blast
  have kr: "k < length r"
    using assms(3,5) by simp
  show "out ! (n + 1) ! k = update_expr fl scheme A r sigma N (out ! n) k"
    if "reached out n k"
    by (rule coupled_step [OF att assms(2,5) kr assms(6,4) that])
  show "out ! (n + 1) ! k = NaN" if "\<not> reached out n k"
    by (rule attempt_unreached [OF att assms(4,5) that])
  show "update_expr exact scheme A r sigma N (out ! n) k
      = spec_next scheme A r sigma N (out ! n) k"
    by (rule update_expr_exact [OF assms(6)])
qed

theorem update_rule_witness:
  "(\<exists>out. diffusivecalc double 1000 r4 chain2 (Num (1 / 4)) 2 half_rnd = Inr out
      \<and> reached out 0 1
      \<and> out ! 1 ! 1 = update_expr double Diffusive chain2 r4 (Num (1 / 4)) 2 (out ! 0) 1
      \<and> out ! 1 ! 1 = Num (3 / 4))
   \<and> (\<exists>out. diffusivecalc double 1000 r4 chain2 (Num (1 / 4)) 2 zero_half_rnd = Inr out
      \<and> \<not> reached out 0 1 \<and> out ! 1 ! 1 = NaN)"
proof
  have "\<exists>out. scheme_calc double Diffusive 1000 r4 chain2 (Num (1 / 4)) 2 half_rnd = Inr out"
    by (rule scheme_calc_ok [OF chain2_square]) (simp_all add: r4_def)
  then obtain out where
    out: "scheme_calc double Diffusive 1000 r4 chain2 (Num (1 / 4)) 2 half_rnd = Inr out"
    by blast
  from scheme_calc_attempt [OF out] obtain c t where
    att: "attempt (scheme_node double Diffusive chain2 r4 (Num (1 / 4)) 2) 1000 2 (half_rnd c)
            = Inr (out, t)"
    by blast
  have row0: "out ! 0 = [Num (1 / 2), Num (1 / 2)]"
    using row0_of_draws [OF att] by (simp add: half_rnd_def)
  then have reach: "reached out 0 1"
    by (simp add: reached_def stuck_def)
  have hyp: "square chain2 2 \<and> 2 \<le> length r4 \<and> 0 < nat (1000 + 10000) \<and> (1::nat) < 2
      \<and> 0 < indeg chain2 2 1"
    by (simp add: chain2_square r4_def chain2_indeg)
  with update_rule [of double Diffusive 1000 r4 chain2 "Num (1 / 4)" 2 half_rnd out 0 1]
    out reach
  have "out ! 1 ! 1 = update_expr double Diffusive chain2 r4 (Num (1 / 4)) 2 (out ! 0) 1"
    by simp
  moreover have "update_expr double Diffusive chain2 r4 (Num (1 / 4)) 2 (out ! 0) 1
      = Num (3 / 4)"
    using update_half_row by (simp add: row0)
  ultimately show "\<exists>out. diffusivecalc double 1000 r4 chain2 (Num (1 / 4)) 2 half_rnd = Inr out
      \<and> reached out 0 1
      \<and> out ! 1 ! 1 = update_expr double Diffusive chain2 r4 (Num (1 / 4)) 2 (out ! 0) 1
      \<and> out ! 1 ! 1 = Num (3 / 4)"
    using out reach by auto
next
  have "\<exists>out. scheme_calc double Diffusive 1000 r4 chain2 (Num (1 / 4)) 2 zero_half_rnd = Inr out"
    by (rule scheme_calc_ok [OF chain2_square]) (simp_all add: r4_def)
  then obtain out where
    out: "scheme_calc double Diffusive 1000 r4 chain2 (Num (1 / 4)) 2 zero_half_rnd = Inr out"
    by blast
  from scheme_calc_attempt [OF out] obtain c t where
    att: "attempt (scheme_node double Diffusive chain2 r4 (Num (1 / 4)) 2) 1000 2
            (zero_half_rnd c) = Inr (out, t)"
    by blast
  have "\<not> reached out 0 (Suc 0)"
    by (rule zero_draw_unreached [OF att rounding_double chain2_square])
       (simp_all add: r4_def chain2_indeg zero_half_rnd_def)
  then have unreach: "\<not> reached out 0 1"
    by simp
  have hyp: "square chain2 2 \<and> 2 \<le> length r4 \<and> 0 < nat (1000 + 10000) \<and> (1::nat) < 2
      \<and> 0 < indeg chain2 2 1"
    by (simp add: chain2_square r4_def chain2_indeg)
  with update_rule [of double Diffusive 1000 r4 chain2 "Num (1 / 4)" 2 zero_half_rnd out 0 1]
    out unreach
  have "out ! 1 ! 1 = NaN"
    by simp
  with out unreach
  show "\<exists>out. diffusivecalc double 1000 r4 chain2 (Num (1 / 4)) 2 zero_half_rnd = Inr out
      \<and> \<not> reached out 0 1 \<and> out ! 1 ! 1 = NaN"
    by auto
qed

subsection \<open>Source nodes\<close>

lemma logistic_fixed: "(logistic double (Num 4) ^^ m) (Num (3 / 4)) = Num (3 / 4)"
  by (induction m) (simp_all add: logistic_def fsub_def double_vals)

lemma logistic_quarter: "logistic double (Num 4) (Num (1 / 4)) = Num (3 / 4)"
  by (simp add: logistic_def fsub_def double_vals)

text \<open>
  Claim C3 as stated fails. On the graph of two nodes without an edge, with \<open>r = 4\<close>, let
  every attempt draw \<open>0\<close> for the first node and \<open>1/4\<close> for the second. Both nodes have
  in-degree 0. The first node is zero in rows 0 and 1, the loop over the nodes is left
  before it gets to the second node, and the second node's entry in row 1 of the returned
  buffer is the not-a-number, where the logistic map gives \<open>4\<cdot>(1/4)\<cdot>(3/4) = 3/4\<close>.
\<close>

theorem source_node_not_iterated:
  "\<exists>out. kanekocalc double 1000 r4 apart2 (Num (1 / 4)) 2 zero_quarter_rnd = Inr out
     \<and> out ! 0 = [Num 0, Num (1 / 4)] \<and> out ! 1 ! 1 = NaN
     \<and> indeg apart2 2 1 = 0
     \<and> logistic double (r4 ! 1) (out ! 0 ! 1) = Num (3 / 4)"
proof -
  have "\<exists>out. scheme_calc double Kaneko 1000 r4 apart2 (Num (1 / 4)) 2 zero_quarter_rnd = Inr out"
    by (rule scheme_calc_ok [OF apart2_square]) (simp_all add: r4_def)
  then obtain out where
    out: "scheme_calc double Kaneko 1000 r4 apart2 (Num (1 / 4)) 2 zero_quarter_rnd = Inr out"
    by blast
  from scheme_calc_attempt [OF out] obtain c t where
    att: "attempt (scheme_node double Kaneko apart2 r4 (Num (1 / 4)) 2) 1000 2
            (zero_quarter_rnd c) = Inr (out, t)"
    by blast
  have "out ! 0 = [Num 0, Num (zero_quarter_rnd c (Suc 0))]" and "out ! Suc 0 ! Suc 0 = NaN"
    by (rule zero_draw_unreached [OF att rounding_double apart2_square];
        simp add: r4_def apart2_indeg zero_quarter_rnd_def)+
  then have "out ! 0 = [Num 0, Num (1 / 4)]" and "out ! 1 ! 1 = NaN"
    by (simp_all add: zero_quarter_rnd_def)
  with out logistic_quarter apart2_indeg(2) show ?thesis
    by (auto simp: r4_def)
qed

text \<open>
  Claim C3, amended. For a node \<open>k\<close> of in-degree 0, for both schemes and every \<open>\<sigma>\<close>: row 0
  of the returned buffer holds the node's own draw, and row \<open>n\<close> holds the \<open>n\<close>-fold iterate
  of the logistic map \<open>x \<mapsto> (r\<^sub>k\<cdot>x)\<cdot>(1 - x)\<close> on that draw, as long as the loop over the nodes
  got to \<open>k\<close> in every earlier step (no node listed before \<open>k\<close> was zero in two consecutive
  rows); neither \<open>\<sigma>\<close> nor the scheme occurs in the value. After a step in which the loop did
  not get to \<open>k\<close>, the node's entry is the not-a-number.
\<close>

theorem source_node_logistic:
  assumes "scheme_calc fl scheme tslength r A sigma N rnd = Inr out"
    and "square A N" and "N \<le> length r" and "k < N" and "indeg A N k = 0"
    and "n \<le> nat (tslength + 10000)"
  shows "\<exists>c. 1 \<le> c \<and> c \<le> 11 \<and> out ! 0 ! k = Num (rnd c k)
           \<and> ((\<forall>m<n. reached out m k) \<longrightarrow>
                out ! n ! k = (logistic fl (r ! k) ^^ n) (Num (rnd c k)))
           \<and> (\<forall>m<n. \<not> reached out m k \<longrightarrow> out ! (m + 1) ! k = NaN)"
proof -
  from scheme_calc_attempt [OF assms(1)] obtain c t where
    c: "1 \<le> c" "c \<le> 11" and
    att: "attempt (scheme_node fl scheme A r sigma N) tslength N (rnd c) = Inr (out, t)"
    by blast
  have kr: "k < length r"
    using assms(3,4) by simp
  have "out ! 0 ! k = Num (rnd c k)"
    using attempt_shape(4) [OF att] assms(4) by simp
  moreover have "out ! n ! k = (logistic fl (r ! k) ^^ n) (Num (rnd c k))"
    if "\<forall>m<n. reached out m k"
    by (rule source_iter [OF att assms(2,4) kr assms(5,6) that])
  moreover have "out ! (m + 1) ! k = NaN" if "m < n" and "\<not> reached out m k" for m
    by (rule attempt_unreached [OF att _ assms(4) that(2)]) (use that(1) assms(6) in simp)
  ultimately show ?thesis
    using c by blast
qed

theorem source_node_logistic_witness:
  "(\<exists>out c. kanekocalc double 1000 r4 apart2 (Num (1 / 4)) 2 fixed_half_rnd = Inr out
      \<and> 1 \<le> c \<and> c \<le> 11 \<and> out ! 0 ! 1 = Num (fixed_half_rnd c 1)
      \<and> reached out 0 1 \<and> reached out 1 1 \<and> reached out 2 1
      \<and> out ! 3 ! 1 = (logistic double (r4 ! 1) ^^ 3) (Num (fixed_half_rnd c 1))
      \<and> out ! 3 ! 1 = Num 0)
   \<and> (\<exists>out. kanekocalc double 1000 r4 apart2 (Num (1 / 4)) 2 zero_quarter_rnd = Inr out
      \<and> \<not> reached out 0 1 \<and> out ! 1 ! 1 = NaN)"
proof
  have "\<exists>out. scheme_calc double Kaneko 1000 r4 apart2 (Num (1 / 4)) 2 fixed_half_rnd = Inr out"
    by (rule scheme_calc_ok [OF apart2_square]) (simp_all add: r4_def)
  then obtain out where
    out: "scheme_calc double Kaneko 1000 r4 apart2 (Num (1 / 4)) 2 fixed_half_rnd = Inr out"
    by blast
  from scheme_calc_attempt [OF out] obtain c0 t where
    att: "attempt (scheme_node double Kaneko apart2 r4 (Num (1 / 4)) 2) 1000 2
            (fixed_half_rnd c0) = Inr (out, t)"
    by blast
  have first: "out ! m ! 0 = Num (3 / 4)" if "m \<le> nat (1000 + 10000)" for m
  proof -
    have "out ! m ! 0 = (logistic double (r4 ! 0) ^^ m) (Num (fixed_half_rnd c0 0))"
      by (rule source_iter [OF att apart2_square _ _ apart2_indeg(1) that])
         (simp_all add: r4_def reached_def)
    then show ?thesis
      by (simp add: r4_def fixed_half_rnd_def logistic_fixed)
  qed
  have reach: "reached out m 1" if "m \<le> nat (1000 + 10000)" for m
    using first [OF that] by (simp add: reached_def stuck_def)
  then have all: "\<forall>m<3. reached out m 1"
    by simp
  have hyp: "square apart2 2 \<and> 2 \<le> length r4 \<and> (1::nat) < 2 \<and> indeg apart2 2 1 = 0
      \<and> 3 \<le> nat (1000 + 10000)"
    by (simp add: apart2_square r4_def apart2_indeg)
  with source_node_logistic
    [of double Kaneko 1000 r4 apart2 "Num (1 / 4)" 2 fixed_half_rnd out 1 3] out all
  obtain c where c: "1 \<le> c" "c \<le> 11" "out ! 0 ! 1 = Num (fixed_half_rnd c 1)"
    "out ! 3 ! 1 = (logistic double (r4 ! 1) ^^ 3) (Num (fixed_half_rnd c 1))"
    by auto
  moreover have "(logistic double (r4 ! 1) ^^ 3) (Num (fixed_half_rnd c 1)) = Num 0"
    using logistic_half(2) by (simp add: r4_def fixed_half_rnd_def)
  moreover have "reached out 0 1" "reached out 1 1" "reached out 2 1"
    by (rule reach; simp)+
  ultimately show "\<exists>out c. kanekocalc double 1000 r4 apart2 (Num (1 / 4)) 2 fixed_half_rnd
        = Inr out
      \<and> 1 \<le> c \<and> c \<le> 11 \<and> out ! 0 ! 1 = Num (fixed_half_rnd c 1)
      \<and> reached out 0 1 \<and> reached out 1 1 \<and> reached out 2 1
      \<and> out ! 3 ! 1 = (logistic double (r4 ! 1) ^^ 3) (Num (fixed_half_rnd c 1))
      \<and> out ! 3 ! 1 = Num 0"
    using out by auto
next
  have "\<exists>out. scheme_calc double Kaneko 1000 r4 apart2 (Num (1 / 4)) 2 zero_quarter_rnd = Inr out"
    by (rule scheme_calc_ok [OF apart2_square]) (simp_all add: r4_def)
  then obtain out where
    out: "scheme_calc double Kaneko 1000 r4 apart2 (Num (1 / 4)) 2 zero_quarter_rnd = Inr out"
    by blast
  from scheme_calc_attempt [OF out] obtain c0 t where
    att: "attempt (scheme_node double Kaneko apart2 r4 (Num (1 / 4)) 2) 1000 2
            (zero_quarter_rnd c0) = Inr (out, t)"
    by blast
  have "\<not> reached out 0 (Suc 0)"
    by (rule zero_draw_unreached [OF att rounding_double apart2_square])
       (simp_all add: r4_def apart2_indeg zero_quarter_rnd_def)
  then have unreach: "\<not> reached out 0 1"
    by simp
  have hyp: "square apart2 2 \<and> 2 \<le> length r4 \<and> (1::nat) < 2 \<and> indeg apart2 2 1 = 0
      \<and> 1 \<le> nat (1000 + 10000)"
    by (simp add: apart2_square r4_def apart2_indeg)
  with source_node_logistic
    [of double Kaneko 1000 r4 apart2 "Num (1 / 4)" 2 zero_quarter_rnd out 1 1] out unreach
  have "out ! 1 ! 1 = NaN"
    by auto
  with out unreach
  show "\<exists>out. kanekocalc double 1000 r4 apart2 (Num (1 / 4)) 2 zero_quarter_rnd = Inr out
      \<and> \<not> reached out 0 1 \<and> out ! 1 ! 1 = NaN"
    by auto
qed

subsection \<open>Normalisation of the columns\<close>

lemma fold_flt_min:
  "fold (\<lambda>w m. if flt w m then w else m) (map Num as) (Num a) = Num (fold min as a)"
proof (induction as arbitrary: a)
  case Nil
  then show ?case by simp
next
  case (Cons b as)
  have "(if b < a then Num b else Num a) = Num (min b a)"
    by (simp add: min_def)
  with Cons show ?case by simp
qed

lemma fold_fgt_max:
  "fold (\<lambda>w m. if fgt w m then w else m) (map Num as) (Num a) = Num (fold max as a)"
proof (induction as arbitrary: a)
  case Nil
  then show ?case by simp
next
  case (Cons b as)
  have "(if a < b then Num b else Num a) = Num (max b a)"
    by (simp add: max_def)
  with Cons show ?case by (simp add: fgt_def)
qed

lemma pymin_finite: "as \<noteq> [] \<Longrightarrow> pymin (map Num as) = Inr (Num (Min (set as)))"
proof (cases as)
  case Nil
  assume "as \<noteq> []"
  with Nil show ?thesis by simp
next
  case (Cons a list)
  have "fold min list a = Min (set (a # list))"
    by (rule Min.set_eq_fold [symmetric])
  with Cons show ?thesis
    by (simp add: fold_flt_min)
qed

lemma pymax_finite: "as \<noteq> [] \<Longrightarrow> pymax (map Num as) = Inr (Num (Max (set as)))"
proof (cases as)
  case Nil
  assume "as \<noteq> []"
  with Nil show ?thesis by simp
next
  case (Cons a list)
  have "fold max list a = Max (set (a # list))"
    by (rule Max.set_eq_fold [symmetric])
  with Cons show ?thesis
    by (simp add: fold_fgt_max)
qed

lemma normal_finite:
  assumes "as \<noteq> []"
  shows "normal fl (map Num as) =
     Inr (map (\<lambda>c. fdiv fl (fsub fl (Num c) (Num (Min (set as))))
                     (fsub fl (Num (Max (set as))) (Num (Min (set as))))) as)"
  using assms by (simp add: normal_def pymin_finite pymax_finite o_def)

lemma fsub_Num: "fsub fl (Num a) (Num b) = fl (a - b)"
  by (simp add: fsub_def)

text \<open>Rounding keeps a number between two doubles between them.\<close>

lemma rounding_between:
  assumes "rounding fl" and "0 \<le> a" and "a \<le> b" and "fl b = Num d"
  shows "\<exists>e. fl a = Num e \<and> 0 \<le> e \<and> e \<le> d"
proof -
  have lo: "flt (Num 0) (fl a) \<or> feq (Num 0) (fl a)"
    using assms(1,2) unfolding rounding_def by metis
  have hi: "flt (fl a) (Num d) \<or> feq (fl a) (Num d)"
    using assms(1,3,4) unfolding rounding_def by metis
  from lo hi show ?thesis
    by (cases "fl a") auto
qed

lemma normal_entry_unit:
  assumes "rounding fl" and "mn \<le> c" and "c \<le> mx" and "fl (mx - mn) = Num d" and "0 < d"
  shows "in_unit (fdiv fl (fsub fl (Num c) (Num mn)) (fsub fl (Num mx) (Num mn)))"
proof -
  have "\<exists>e. fl (c - mn) = Num e \<and> 0 \<le> e \<and> e \<le> d"
    by (rule rounding_between [OF assms(1) _ _ assms(4)]) (use assms(2,3) in simp_all)
  then obtain e where e: "fl (c - mn) = Num e" "0 \<le> e" "e \<le> d"
    by blast
  have one: "fl 1 = Num 1"
    using assms(1) by (simp add: rounding_def)
  have "\<exists>q. fl (e / d) = Num q \<and> 0 \<le> q \<and> q \<le> 1"
    by (rule rounding_between [OF assms(1) _ _ one]) (use e assms(5) in simp_all)
  then obtain q where "fl (e / d) = Num q" "0 \<le> q" "q \<le> 1"
    by blast
  then show ?thesis
    using e(1) assms(4,5) by (simp add: fsub_Num)
qed

lemma normal_entry_min:
  assumes "rounding fl" and "fl (mx - mn) = Num d" and "0 < d"
  shows "fdiv fl (fsub fl (Num mn) (Num mn)) (fsub fl (Num mx) (Num mn)) = Num 0"
  using assms by (simp add: fsub_Num rounding_def)

lemma normal_entry_max:
  assumes "rounding fl" and "fl (mx - mn) = Num d" and "0 < d"
  shows "fdiv fl (fsub fl (Num mx) (Num mn)) (fsub fl (Num mx) (Num mn)) = Num 1"
  using assms by (simp add: fsub_Num rounding_def)

lemma normal_entry_const:
  assumes "rounding fl"
  shows "fdiv fl (fsub fl (Num a) (Num a)) (fsub fl (Num a) (Num a)) = NaN"
  using assms by (simp add: fsub_Num rounding_def signed_inf_def)

lemma col_map2_same:
  "length col = length out \<Longrightarrow> \<forall>rw \<in> set out. j < length rw \<Longrightarrow>
   map (\<lambda>rw. rw ! j) (map2 (\<lambda>rw v. rw[j := v]) out col) = col"
  by (induction col out rule: list_induct2) simp_all

lemma col_map2_other:
  "length col = length out \<Longrightarrow> i \<noteq> j \<Longrightarrow>
   map (\<lambda>rw. rw ! i) (map2 (\<lambda>rw v. rw[j := v]) out col) = map (\<lambda>rw. rw ! i) out"
  by (induction col out rule: list_induct2) simp_all

lemma rows_map2:
  "\<forall>rw \<in> set out. i < length rw \<Longrightarrow> \<forall>rw \<in> set (map2 (\<lambda>rw v. rw[j := v]) out col). i < length rw"
  by (auto simp: set_zip)

lemma normalize_cols_column:
  "normalize_cols fl is out = Inr out' \<Longrightarrow> distinct is \<Longrightarrow> \<forall>rw \<in> set out. i < length rw \<Longrightarrow>
   (i \<in> set is \<longrightarrow> normal fl (map (\<lambda>rw. rw ! i) out) = Inr (map (\<lambda>rw. rw ! i) out'))
   \<and> (i \<notin> set is \<longrightarrow> map (\<lambda>rw. rw ! i) out' = map (\<lambda>rw. rw ! i) out)"
proof (induction "is" arbitrary: out)
  case Nil
  then show ?case by simp
next
  case (Cons j "is")
  from Cons.prems(1) obtain col where
    col: "normal fl (map (\<lambda>rw. rw ! j) out) = Inr col" and
    rec: "normalize_cols fl is (map2 (\<lambda>rw v. rw[j := v]) out col) = Inr out'"
    by (auto split: sum.splits)
  let ?out2 = "map2 (\<lambda>rw v. rw[j := v]) out col"
  have len: "length col = length out"
    using normal_length [OF col] by simp
  have rows2: "\<forall>rw \<in> set ?out2. i < length rw"
    by (rule rows_map2 [OF Cons.prems(3)])
  have dist: "distinct is" and jnot: "j \<notin> set is"
    using Cons.prems(2) by simp_all
  note ih = Cons.IH [OF rec dist rows2]
  show ?case
  proof (cases "i = j")
    case True
    have "map (\<lambda>rw. rw ! i) ?out2 = col"
      using col_map2_same [OF len, of j] Cons.prems(3) True by simp
    with ih jnot True col show ?thesis
      by simp
  next
    case False
    have "map (\<lambda>rw. rw ! i) ?out2 = map (\<lambda>rw. rw ! i) out"
      by (rule col_map2_other [OF len False])
    with ih False show ?thesis
      by simp
  qed
qed

text \<open>The normalised column of a column of finite values, entry by entry.\<close>

lemma postprocess_column:
  assumes "\<forall>rw \<in> set raw. length rw = N" and "i < N"
    and "column i (drop 10002 raw) = map Num as" and "as \<noteq> []"
  shows "\<exists>out. postprocess fl N raw = Inr out \<and> length out = length raw - 10002
     \<and> column i out =
         map (\<lambda>c. fdiv fl (fsub fl (Num c) (Num (Min (set as))))
                    (fsub fl (Num (Max (set as))) (Num (Min (set as))))) as"
proof -
  let ?cut = "drop 10002 raw"
  have "length ?cut = length as"
    using arg_cong [OF assms(3), of length] by (simp add: column_def)
  with assms(4) have cutne: "?cut \<noteq> []"
    by auto
  have rows: "\<forall>rw \<in> set ?cut. length rw = N"
    using assms(1) by (meson in_set_dropD)
  from normalize_cols_shape [OF cutne rows, of fl "[0..<N]"] obtain out where
    out: "normalize_cols fl [0..<N] ?cut = Inr out" "length out = length ?cut"
    by blast
  have "normal fl (map (\<lambda>rw. rw ! i) ?cut) = Inr (map (\<lambda>rw. rw ! i) out)"
    using normalize_cols_column [OF out(1), of i] rows assms(2) by simp
  then have "column i out =
         map (\<lambda>c. fdiv fl (fsub fl (Num c) (Num (Min (set as))))
                    (fsub fl (Num (Max (set as))) (Num (Min (set as))))) as"
    using normal_finite [OF assms(4), of fl] assms(3) by (simp add: column_def)
  moreover have "postprocess fl N raw = Inr out \<and> length out = length raw - 10002"
    using out by (simp add: postprocess_def)
  ultimately show ?thesis
    by blast
qed

lemma constant_column:
  assumes "rounding fl" and "\<forall>rw \<in> set raw. length rw = N" and "i < N"
    and "column i (drop 10002 raw) = replicate m (Num a)" and "0 < m"
    and "postprocess fl N raw = Inr out"
  shows "column i out = replicate m NaN"
proof -
  have col: "column i (drop 10002 raw) = map Num (replicate m a)"
    using assms(4) by simp
  have ne: "replicate m a \<noteq> []"
    using assms(5) by simp
  have set: "set (replicate m a) = {a}"
    using assms(5) by simp
  from postprocess_column [OF assms(2,3) col ne, of fl] assms(6)
  have "column i out = map (\<lambda>c. fdiv fl (fsub fl (Num c) (Num a)) (fsub fl (Num a) (Num a)))
      (replicate m a)"
    by (simp add: set)
  then show ?thesis
    by (simp add: normal_entry_const [OF assms(1)])
qed

text \<open>
  Claim C4 as stated fails on a valid input. On the graph \<open>X \<rightarrow> Y\<close> with \<open>r = 4\<close>, a draw of
  \<open>3/4\<close> for \<open>X\<close> is a fixed point of the logistic map of \<open>X\<close>, which has no predecessor:
  \<open>(4\<cdot>(3/4))\<cdot>(1 - 3/4) = 3/4\<close> without any rounding. The column of \<open>X\<close> is constant, its
  normalisation divides zero by zero, and the column of \<open>X\<close> in the table that the call
  returns holds the not-a-number in each of its 999 rows.
\<close>

theorem constant_column_not_a_number:
  "\<exists>out. coupledlogistic double 1000 (RInt 4) chain2 (Num (1 / 4)) ''diffusive'' fixed_rnd
            = Inr out
     \<and> length out = 999 \<and> column 0 out = replicate 999 NaN"
proof -
  have res: "resolve_r double (RInt 4) 2 = Inr r4"
    by (simp add: double_vals r4_def numeral_2_eq_2)
  have "\<exists>raw out. scheme_calc double Diffusive 1000 r4 chain2 (Num (1 / 4)) 2 fixed_rnd = Inr raw
           \<and> coupledlogistic double 1000 (RInt 4) chain2 (Num (1 / 4)) (scheme_name Diffusive)
               fixed_rnd = Inr out
           \<and> postprocess double 2 raw = Inr out
           \<and> int (length out) = 1000 - 1 \<and> (\<forall>rw \<in> set out. length rw = 2)"
    by (rule coupledlogistic_returns [OF chain2_square _ res]) (simp_all add: r4_def)
  then obtain raw out where
    raw: "scheme_calc double Diffusive 1000 r4 chain2 (Num (1 / 4)) 2 fixed_rnd = Inr raw" and
    out: "coupledlogistic double 1000 (RInt 4) chain2 (Num (1 / 4)) ''diffusive'' fixed_rnd
            = Inr out" and
    post: "postprocess double 2 raw = Inr out" and len: "length out = 999"
    by auto
  from scheme_calc_attempt [OF raw] obtain c t where
    att: "attempt (scheme_node double Diffusive chain2 r4 (Num (1 / 4)) 2) 1000 2 (fixed_rnd c)
            = Inr (raw, t)"
    by blast
  note sh = scheme_calc_shape [OF raw]
  have first: "raw ! m ! 0 = Num (3 / 4)" if "m \<le> nat (1000 + 10000)" for m
  proof -
    have "raw ! m ! 0 = (logistic double (r4 ! 0) ^^ m) (Num (fixed_rnd c 0))"
      by (rule source_iter [OF att chain2_square _ _ chain2_indeg(1) that])
         (simp_all add: r4_def reached_def)
    then show ?thesis
      by (simp add: r4_def fixed_rnd_def logistic_fixed)
  qed
  have col: "column 0 (drop 10002 raw) = replicate 999 (Num (3 / 4))"
  proof (rule nth_equalityI)
    show "length (column 0 (drop 10002 raw)) = length (replicate 999 (Num (3 / 4)))"
      using sh(2) by (simp add: column_def)
    show "column 0 (drop 10002 raw) ! j = replicate 999 (Num (3 / 4)) ! j"
      if "j < length (column 0 (drop 10002 raw))" for j
    proof -
      have j: "j < 999"
        using that sh(2) by (simp add: column_def)
      then have "column 0 (drop 10002 raw) ! j = raw ! (10002 + j) ! 0"
        using sh(2) by (simp add: column_def)
      also have "\<dots> = Num (3 / 4)"
        by (rule first) (use j in simp)
      finally show ?thesis
        using j by simp
    qed
  qed
  have "column 0 out = replicate 999 NaN"
    by (rule constant_column [OF rounding_double sh(3) _ col _ post]) simp_all
  with out len show ?thesis
    by blast
qed

text \<open>
  Claim C4, amended. Take a column of the table that the cut leaves (the raw buffer
  without its first 10002 rows), with at least one row, whose entries are all finite. The
  cut and the normalisation raise nothing, and the column is replaced by
  \<open>(x - min)/(max - min)\<close> entry by entry, every operation rounded. If the rounded
  difference \<open>max - min\<close> is a positive finite number, every entry of the normalised column
  lies in \<open>[0,1]\<close>, the value 0 occurs and the value 1 occurs, so the minimum is 0 and the
  maximum is 1. If the entries of the column are all equal (\<open>max = min\<close>), every entry of
  the normalised column is the not-a-number.
\<close>

theorem normalized_columns:
  assumes "rounding fl" and "\<forall>rw \<in> set raw. length rw = N" and "i < N"
    and "column i (drop 10002 raw) = map Num as" and "as \<noteq> []"
  shows "\<exists>out. postprocess fl N raw = Inr out \<and> length out = length raw - 10002
     \<and> column i out =
         map (\<lambda>c. fdiv fl (fsub fl (Num c) (Num (Min (set as))))
                    (fsub fl (Num (Max (set as))) (Num (Min (set as))))) as
     \<and> ((\<exists>d. fl (Max (set as) - Min (set as)) = Num d \<and> 0 < d) \<longrightarrow>
          list_all in_unit (column i out)
          \<and> Num 0 \<in> set (column i out) \<and> Num 1 \<in> set (column i out))
     \<and> (Max (set as) = Min (set as) \<longrightarrow> column i out = replicate (length as) NaN)"
proof -
  let ?mn = "Min (set as)" and ?mx = "Max (set as)"
  let ?f = "\<lambda>c. fdiv fl (fsub fl (Num c) (Num ?mn)) (fsub fl (Num ?mx) (Num ?mn))"
  from postprocess_column [OF assms(2,3,4,5), of fl] obtain out where
    out: "postprocess fl N raw = Inr out" "length out = length raw - 10002"
      "column i out = map ?f as"
    by blast
  have bounds: "?mn \<le> c \<and> c \<le> ?mx" if "c \<in> set as" for c
    using that by simp
  have mn: "?mn \<in> set as" and mx: "?mx \<in> set as"
    using assms(5) by (simp_all add: Min_in Max_in)
  have pos: "list_all in_unit (column i out)
      \<and> Num 0 \<in> set (column i out) \<and> Num 1 \<in> set (column i out)"
    if "\<exists>d. fl (?mx - ?mn) = Num d \<and> 0 < d"
  proof -
    from that obtain d where d: "fl (?mx - ?mn) = Num d" "0 < d"
      by blast
    have "in_unit (?f c)" if "c \<in> set as" for c
      using bounds [OF that] by (intro normal_entry_unit [OF assms(1) _ _ d]) simp_all
    then have "list_all in_unit (map ?f as)"
      by (simp add: list_all_iff)
    moreover have "?f ?mn \<in> ?f ` set as" "?f ?mx \<in> ?f ` set as"
      by (rule imageI [OF mn], rule imageI [OF mx])
    then have "Num 0 \<in> set (map ?f as)" "Num 1 \<in> set (map ?f as)"
      using normal_entry_min [OF assms(1) d] normal_entry_max [OF assms(1) d] by simp_all
    ultimately show ?thesis
      unfolding out(3) by blast
  qed
  have const: "column i out = replicate (length as) NaN" if "?mx = ?mn"
  proof -
    have "?f c = NaN" if "c \<in> set as" for c
    proof -
      have "c = ?mn"
        using bounds [OF that] \<open>?mx = ?mn\<close> by simp
      then show ?thesis
        using normal_entry_const [OF assms(1), of ?mn] \<open>?mx = ?mn\<close> by simp
    qed
    then have "map ?f as = map (\<lambda>c. NaN) as"
      by (intro map_cong) simp_all
    then show ?thesis
      unfolding out(3) by (simp add: map_replicate_const)
  qed
  from out pos const show ?thesis
    by blast
qed

theorem normalized_columns_witness:
  "\<exists>out. postprocess double 2
            (replicate 10002 [NaN, NaN] @ [[Num 3, Num 2], [Num 1, Num 2], [Num 2, Num 2]])
            = Inr out
     \<and> length out = 3
     \<and> list_all in_unit (column 0 out) \<and> Num 0 \<in> set (column 0 out)
     \<and> Num 1 \<in> set (column 0 out)
     \<and> column 1 out = [NaN, NaN, NaN]"
proof -
  let ?raw = "replicate 10002 [NaN, NaN] @ [[Num 3, Num 2], [Num 1, Num 2], [Num 2, Num 2]]"
  have rows: "\<forall>rw \<in> set ?raw. length rw = 2"
    by auto
  have col0: "column 0 (drop 10002 ?raw) = map Num [3, 1, 2]"
    and col1: "column 1 (drop 10002 ?raw) = map Num [2, 2, 2]"
    by (simp_all add: column_def)
  have diff: "\<exists>d. double (Max (set [3, 1, 2]) - Min (set [3, 1, 2])) = Num d \<and> 0 < d"
    by (simp add: double_vals)
  have same: "Max (set [2, 2, 2 :: real]) = Min (set [2, 2, 2])"
    by simp
  from normalized_columns [OF rounding_double rows _ col0] diff
    normalized_columns [OF rounding_double rows _ col1] same
  show ?thesis
    by (auto simp: numeral_3_eq_3)
qed

subsection \<open>Coupling switched off\<close>

lemma fadd_zero_product:
  assumes "rounding fl"
  shows "fadd fl (fmul fl u v) (Num 0) = fmul fl u v"
proof (cases "\<exists>a b. u = Num a \<and> v = Num b")
  case True
  then obtain a b where uv: "u = Num a" "v = Num b"
    by blast
  show ?thesis
  proof (cases "fl (a * b)")
    case (Num c)
    then have "fl c = Num c"
      using assms unfolding rounding_def by metis
    with Num uv show ?thesis
      by simp
  qed (simp_all add: uv)
next
  case False
  then show ?thesis
    by (cases u; cases v) (simp_all add: signed_inf_def)
qed

lemma coupling_off_value:
  assumes "rounding fl" and "is_double fl (r ! k)"
    and "is_num (coupling fl scheme A r N x k)"
  shows "update_expr fl scheme A r (Num 0) N x k = logistic fl (r ! k) (x ! k)"
proof -
  from assms(2) obtain a where a: "r ! k = Num a" "fl a = Num a"
    by (cases "r ! k") simp_all
  from assms(3) obtain c where c: "coupling fl scheme A r N x k = Num c"
    by (cases "coupling fl scheme A r N x k") simp_all
  have zero: "fl 0 = Num 0" and one: "fl 1 = Num 1"
    using assms(1) by (simp_all add: rounding_def)
  have "update_expr fl scheme A r (Num 0) N x k =
      fadd fl (fmul fl (fmul fl (Num a) (x ! k)) (fsub fl (Num 1) (x ! k))) (Num 0)"
    by (simp add: update_expr_def a c fsub_Num zero one)
  also have "\<dots> = fmul fl (fmul fl (Num a) (x ! k)) (fsub fl (Num 1) (x ! k))"
    by (rule fadd_zero_product [OF assms(1)])
  finally show ?thesis
    by (simp add: logistic_def a)
qed

lemma coupling_off_node:
  assumes "rounding fl" and "square A N" and "k < N" and "k < length r"
    and "is_double fl (r ! k)"
    and "0 < indeg A N k \<longrightarrow> is_num (coupling fl scheme A r N x k)"
  shows "scheme_node fl scheme A r (Num 0) N x k = Inr (logistic fl (r ! k) (x ! k))"
proof (cases "0 < indeg A N k")
  case True
  with assms(6) have "is_num (coupling fl scheme A r N x k)"
    by simp
  from coupling_off_value [OF assms(1,5) this]
  show ?thesis
    using scheme_node_coupled [OF assms(2,3,4) True, of fl scheme "Num 0" x] by simp
next
  case False
  then show ?thesis
    using scheme_node_source [OF assms(2,3,4), of fl scheme "Num 0" x] by simp
qed

lemma finite_couplings_at:
  assumes "finite_couplings fl A r N ts out" and "n < nat (ts + 10000)" and "k < N"
    and "reached out n k" and "0 < indeg A N k"
  shows "is_num (coupling fl scheme A r N (out ! n) k)"
  using assms by (cases scheme) (auto simp: finite_couplings_def list_all_iff)

text \<open>With finite coupling terms, an attempt of one scheme is an attempt of the other.\<close>

lemma coupling_off_attempt:
  assumes "rounding fl" and "square A N" and "N \<le> length r" and "list_all (is_double fl) r"
    and att: "attempt (scheme_node fl s1 A r (Num 0) N) ts N draw = Inr (out, t)"
    and fin: "finite_couplings fl A r N ts out"
  shows "attempt (scheme_node fl s2 A r (Num 0) N) ts N draw = Inr (out, t)"
proof (rule attempt_agree [OF att])
  fix n k
  assume n: "n < nat (ts + 10000)" and k: "k < N" and reach: "reached out n k"
  have kr: "k < length r"
    using k assms(3) by simp
  then have dbl: "is_double fl (r ! k)"
    using assms(4) by (simp add: list_all_length)
  have num: "0 < indeg A N k \<longrightarrow> is_num (coupling fl s A r N (out ! n) k)" for s
    using finite_couplings_at [OF fin n k reach] by simp
  show "scheme_node fl s2 A r (Num 0) N (out ! n) k = scheme_node fl s1 A r (Num 0) N (out ! n) k"
    using coupling_off_node [OF assms(1,2) k kr dbl num]
    by simp
qed

lemma calc_loop_cong_draws:
  assumes "\<And>i. c < i \<Longrightarrow> i \<le> 11 \<Longrightarrow> attempt upd1 ts N (rnd i) = attempt upd2 ts N (rnd i)"
    and "c \<le> 10"
  shows "calc_loop upd1 ts N rnd c = calc_loop upd2 ts N rnd c"
  using assms
proof (induction "11 - c" arbitrary: c rule: less_induct)
  case less
  have same: "attempt upd1 ts N (rnd (c + 1)) = attempt upd2 ts N (rnd (c + 1))"
    by (rule less.prems(1)) (use less.prems(2) in simp_all)
  show ?case
  proof (cases "attempt upd1 ts N (rnd (c + 1))")
    case (Inl e)
    then have "attempt upd2 ts N (rnd (c + 1)) = Inl e"
      using same by simp
    with Inl show ?thesis
      using calc_loop_error [of upd1 ts N rnd c e] calc_loop_error [of upd2 ts N rnd c e]
      by simp
  next
    case (Inr p)
    obtain out1 t1 where p: "p = (out1, t1)"
      by (cases p)
    note a1 = Inr [unfolded p]
    have a2: "attempt upd2 ts N (rnd (c + 1)) = Inr (out1, t1)"
      using a1 same by simp
    note u1 = calc_loop_unfold [of upd1 ts N rnd c out1 t1, OF a1]
    note u2 = calc_loop_unfold [of upd2 ts N rnd c out1 t1, OF a2]
    show ?thesis
    proof (cases "\<not> t1 \<or> 10 < c + 1")
      case True
      with u1 u2 show ?thesis by simp
    next
      case False
      then have lt: "11 - (c + 1) < 11 - c" and le: "c + 1 \<le> 10"
        by linarith+
      have "calc_loop upd1 ts N rnd (c + 1) = calc_loop upd2 ts N rnd (c + 1)"
      proof (rule less.hyps [OF lt _ le])
        show "attempt upd1 ts N (rnd i) = attempt upd2 ts N (rnd i)"
          if "c + 1 < i" and "i \<le> 11" for i
          by (rule less.prems(1)) (use that in simp_all)
      qed
      with u1 u2 False show ?thesis
        by simp
    qed
  qed
qed

lemma logistic_one: "logistic double (Num 4) (Num (1 / 2)) = Num 1"
  by (simp add: logistic_def fsub_def double_vals)

text \<open>
  Claim C5 as stated fails. On the graph \<open>X \<rightarrow> Y\<close> with \<open>r = 4\<close> and \<open>\<sigma> = 0\<close>, let every attempt
  draw \<open>0\<close> for \<open>X\<close> and \<open>1/2\<close> for \<open>Y\<close>. Node \<open>X\<close> is zero in rows 0 and 1, the loop over the
  nodes is left before it gets to \<open>Y\<close>, and the entry of \<open>Y\<close> in row 1 of the returned buffer
  is the not-a-number, where the bare logistic update of \<open>1/2\<close> is \<open>4\<cdot>(1/2)\<cdot>(1/2) = 1\<close>.
\<close>

theorem coupling_off_not_logistic:
  "\<exists>out. diffusivecalc double 1000 r4 chain2 (Num 0) 2 zero_half_rnd = Inr out
     \<and> out ! 0 = [Num 0, Num (1 / 2)] \<and> out ! 1 ! 1 = NaN
     \<and> logistic double (r4 ! 1) (out ! 0 ! 1) = Num 1"
proof -
  have "\<exists>out. scheme_calc double Diffusive 1000 r4 chain2 (Num 0) 2 zero_half_rnd = Inr out"
    by (rule scheme_calc_ok [OF chain2_square]) (simp_all add: r4_def)
  then obtain out where
    out: "scheme_calc double Diffusive 1000 r4 chain2 (Num 0) 2 zero_half_rnd = Inr out"
    by blast
  from scheme_calc_attempt [OF out] obtain c t where
    att: "attempt (scheme_node double Diffusive chain2 r4 (Num 0) 2) 1000 2
            (zero_half_rnd c) = Inr (out, t)"
    by blast
  have "out ! 0 = [Num 0, Num (zero_half_rnd c (Suc 0))]" and "out ! Suc 0 ! Suc 0 = NaN"
    by (rule zero_draw_unreached [OF att rounding_double chain2_square];
        simp add: r4_def chain2_indeg zero_half_rnd_def)+
  then have "out ! 0 = [Num 0, Num (1 / 2)]" and "out ! 1 ! 1 = NaN"
    by (simp_all add: zero_half_rnd_def)
  with out logistic_one show ?thesis
    by (auto simp: r4_def)
qed

text \<open>
  Claim C5, amended. Let \<open>\<sigma> = 0\<close>, the matrix be square and the parameters \<open>r\<^sub>k\<close> be finite
  doubles.
  \<^item> In the buffer that an engine returns, an entry \<open>out[n+1,k]\<close> that the loop over the
    nodes gets to (no node listed before \<open>k\<close> is zero in rows \<open>n\<close> and \<open>n + 1\<close>) is the bare
    logistic update \<open>(r\<^sub>k\<cdot>x)\<cdot>(1 - x)\<close> of \<open>x = out[n,k]\<close>, provided that \<open>k\<close> has no
    predecessor or that the coupling term \<open>S/deg\<close> computed from row \<open>n\<close> is a finite
    number.
  \<^item> From the same initial draw: if, in an attempt of one scheme, the coupling terms of
    both schemes are finite wherever the loop gets to a node with predecessors, then
    both schemes compute this very buffer, with the same flag.
  \<^item> If that is so for the attempts of one scheme on each of the 11 draws of the random
    source, \<^verbatim>\<open>diffusivecalc\<close> and \<^verbatim>\<open>kanekocalc\<close> return the same result.
\<close>

theorem coupling_off:
  assumes "rounding fl" and "square A N" and "N \<le> length r" and "list_all (is_double fl) r"
  shows "(scheme_calc fl scheme tslength r A (Num 0) N rnd = Inr out \<longrightarrow>
            n < nat (tslength + 10000) \<longrightarrow> k < N \<longrightarrow> reached out n k \<longrightarrow>
            (0 < indeg A N k \<longrightarrow> is_num (coupling fl scheme A r N (out ! n) k)) \<longrightarrow>
            out ! (n + 1) ! k = logistic fl (r ! k) (out ! n ! k))
     \<and> (attempt (scheme_node fl scheme A r (Num 0) N) tslength N draw = Inr (buf, temp) \<longrightarrow>
          finite_couplings fl A r N tslength buf \<longrightarrow>
          attempt (scheme_node fl Diffusive A r (Num 0) N) tslength N draw = Inr (buf, temp)
          \<and> attempt (scheme_node fl Kaneko A r (Num 0) N) tslength N draw = Inr (buf, temp))
     \<and> ((\<forall>i. 1 \<le> i \<and> i \<le> 11 \<longrightarrow>
            (\<exists>b t. attempt (scheme_node fl scheme A r (Num 0) N) tslength N (rnd i)
                     = Inr (b, t)
                   \<and> finite_couplings fl A r N tslength b)) \<longrightarrow>
          diffusivecalc fl tslength r A (Num 0) N rnd
            = kanekocalc fl tslength r A (Num 0) N rnd)"
proof (intro conjI impI)
  assume out: "scheme_calc fl scheme tslength r A (Num 0) N rnd = Inr out"
    and n: "n < nat (tslength + 10000)" and k: "k < N" and reach: "reached out n k"
    and fin: "0 < indeg A N k \<longrightarrow> is_num (coupling fl scheme A r N (out ! n) k)"
  from scheme_calc_attempt [OF out] obtain c t where
    att: "attempt (scheme_node fl scheme A r (Num 0) N) tslength N (rnd c) = Inr (out, t)"
    by blast
  have kr: "k < length r"
    using k assms(3) by simp
  then have dbl: "is_double fl (r ! k)"
    using assms(4) by (simp add: list_all_length)
  have "scheme_node fl scheme A r (Num 0) N (out ! n) k = Inr (out ! (n + 1) ! k)"
    by (rule attempt_entry [OF att n k reach])
  with coupling_off_node [OF assms(1,2) k kr dbl fin]
  show "out ! (n + 1) ! k = logistic fl (r ! k) (out ! n ! k)"
    by simp
next
  assume att: "attempt (scheme_node fl scheme A r (Num 0) N) tslength N draw = Inr (buf, temp)"
    and fin: "finite_couplings fl A r N tslength buf"
  show "attempt (scheme_node fl Diffusive A r (Num 0) N) tslength N draw = Inr (buf, temp)"
    by (rule coupling_off_attempt [OF assms att fin])
  show "attempt (scheme_node fl Kaneko A r (Num 0) N) tslength N draw = Inr (buf, temp)"
    by (rule coupling_off_attempt [OF assms att fin])
next
  assume all: "\<forall>i. 1 \<le> i \<and> i \<le> 11 \<longrightarrow>
      (\<exists>b t. attempt (scheme_node fl scheme A r (Num 0) N) tslength N (rnd i) = Inr (b, t)
             \<and> finite_couplings fl A r N tslength b)"
  have same: "attempt (scheme_node fl Diffusive A r (Num 0) N) tslength N (rnd i)
      = attempt (scheme_node fl Kaneko A r (Num 0) N) tslength N (rnd i)"
    if "0 < i" and "i \<le> 11" for i
  proof -
    from all that obtain b t where
      att: "attempt (scheme_node fl scheme A r (Num 0) N) tslength N (rnd i) = Inr (b, t)"
      and fin: "finite_couplings fl A r N tslength b"
      by (metis One_nat_def Suc_leI)
    show ?thesis
      using coupling_off_attempt [OF assms att fin, of Diffusive]
        coupling_off_attempt [OF assms att fin, of Kaneko]
      by simp
  qed
  have "calc_loop (scheme_node fl Diffusive A r (Num 0) N) tslength N rnd 0
      = calc_loop (scheme_node fl Kaneko A r (Num 0) N) tslength N rnd 0"
  proof (rule calc_loop_cong_draws)
    show "attempt (scheme_node fl Diffusive A r (Num 0) N) tslength N (rnd i)
        = attempt (scheme_node fl Kaneko A r (Num 0) N) tslength N (rnd i)"
      if "0 < i" and "i \<le> 11" for i
      by (rule same [OF that])
    show "(0::nat) \<le> 10"
      by simp
  qed
  then show "diffusivecalc fl tslength r A (Num 0) N rnd
      = kanekocalc fl tslength r A (Num 0) N rnd"
    by (simp add: diffusivecalc_def kanekocalc_def)
qed

text \<open>An example: both nodes drawn at the fixed point \<open>3/4\<close> of the logistic map.\<close>

lemma coupling_fixed_row:
  "coupling double Diffusive chain2 r4 2 [Num (3 / 4), Num (3 / 4)] (Suc 0) = Num 0"
  "coupling double Kaneko chain2 r4 2 [Num (3 / 4), Num (3 / 4)] (Suc 0) = Num (3 / 4)"
  by (simp_all add: coupling_def chain2_preds chain2_indeg r4_def fsub_def logistic_def
      double_vals)

lemma r4_double: "list_all (is_double double) r4"
  by (simp add: r4_def double_vals)

lemma fixed_rows:
  assumes att: "attempt (scheme_node double scheme chain2 r4 (Num 0) 2) 1000 2 (fixed_rnd c)
      = Inr (out, t)"
  shows "n \<le> nat (1000 + 10000) \<Longrightarrow> out ! n = [Num (3 / 4), Num (3 / 4)]"
proof (induction n)
  case 0
  show ?case
    using row0_of_draws [OF att] by (simp add: fixed_rnd_def)
next
  case (Suc n)
  then have row: "out ! n = [Num (3 / 4), Num (3 / 4)]" and n: "n < nat (1000 + 10000)"
    by simp_all
  have reach: "reached out n k" if "k < 2" for k
  proof -
    have "\<not> stuck out n j" if "j < k" for j
    proof -
      have "j = 0 \<or> j = Suc 0"
        using that \<open>k < 2\<close> by linarith
      then show ?thesis
        using row by (auto simp: stuck_def)
    qed
    then show ?thesis
      by (simp add: reached_def list_all_iff)
  qed
  have node: "scheme_node double scheme chain2 r4 (Num 0) 2 (out ! n) k
      = Inr (logistic double (r4 ! k) (out ! n ! k))" if "k < 2" for k
  proof (rule coupling_off_node [OF rounding_double chain2_square that])
    show "k < length r4"
      using that by (simp add: r4_def)
    show "is_double double (r4 ! k)"
      using that r4_double by (simp add: list_all_length r4_def)
    show "0 < indeg chain2 2 k \<longrightarrow> is_num (coupling double scheme chain2 r4 2 (out ! n) k)"
    proof
      assume "0 < indeg chain2 2 k"
      with that have "k = Suc 0"
        using chain2_indeg(1) by (cases k) auto
      then show "is_num (coupling double scheme chain2 r4 2 (out ! n) k)"
        using coupling_fixed_row by (cases scheme) (simp_all add: row)
    qed
  qed
  have val: "out ! (n + 1) ! k = Num (3 / 4)" if "k < 2" for k
  proof -
    have "scheme_node double scheme chain2 r4 (Num 0) 2 (out ! n) k = Inr (out ! (n + 1) ! k)"
      by (rule attempt_entry [OF att n that reach [OF that]])
    with node [OF that] have "out ! (n + 1) ! k = logistic double (r4 ! k) (out ! n ! k)"
      by simp
    also have "\<dots> = Num (3 / 4)"
      using that logistic_fixed [of 1] by (cases k) (auto simp: row r4_def)
    finally show ?thesis .
  qed
  have "n + 1 < length out"
    using attempt_shape(2) [OF att] n by simp
  then have "length (out ! (n + 1)) = 2"
    using attempt_shape(3) [OF att] by simp
  from length_two [OF this] obtain a b where ab: "out ! (n + 1) = [a, b]"
    by blast
  with val [of 0] val [of 1] show ?case
    by simp
qed

lemma fixed_finite:
  assumes att: "attempt (scheme_node double scheme chain2 r4 (Num 0) 2) 1000 2 (fixed_rnd c)
      = Inr (out, t)"
  shows "finite_couplings double chain2 r4 2 1000 out"
  unfolding finite_couplings_def list_all_iff
proof (intro ballI impI)
  fix n k
  assume n: "n \<in> set [0..<nat (1000 + 10000)]" and k: "k \<in> set [0..<2]"
    and rk: "reached out n k \<and> 0 < indeg chain2 2 k"
  have row: "out ! n = [Num (3 / 4), Num (3 / 4)]"
    by (rule fixed_rows [OF att]) (use n in simp)
  from k have "k < 2"
    by simp
  with rk have "k = Suc 0"
    using chain2_indeg(1) by (cases k) auto
  then show "is_num (coupling double Diffusive chain2 r4 2 (out ! n) k)
      \<and> is_num (coupling double Kaneko chain2 r4 2 (out ! n) k)"
    using coupling_fixed_row by (simp add: row)
qed

theorem coupling_off_witness:
  "\<exists>out t. diffusivecalc double 1000 r4 chain2 (Num 0) 2 fixed_rnd = Inr out
     \<and> kanekocalc double 1000 r4 chain2 (Num 0) 2 fixed_rnd = Inr out
     \<and> reached out 0 1
     \<and> is_num (coupling double Diffusive chain2 r4 2 (out ! 0) 1)
     \<and> out ! 1 ! 1 = logistic double (r4 ! 1) (out ! 0 ! 1)
     \<and> out ! 1 ! 1 = Num (3 / 4)
     \<and> finite_couplings double chain2 r4 2 1000 out
     \<and> attempt (scheme_node double Diffusive chain2 r4 (Num 0) 2) 1000 2 (fixed_rnd 1)
          = Inr (out, t)
     \<and> attempt (scheme_node double Kaneko chain2 r4 (Num 0) 2) 1000 2 (fixed_rnd 1)
          = Inr (out, t)"
proof -
  have ok: "\<exists>b t. attempt (scheme_node double Diffusive chain2 r4 (Num 0) 2) 1000 2 (fixed_rnd i)
      = Inr (b, t) \<and> finite_couplings double chain2 r4 2 1000 b" for i
  proof -
    have "\<exists>b t. attempt (scheme_node double Diffusive chain2 r4 (Num 0) 2) 1000 2 (fixed_rnd i)
        = Inr (b, t)"
      by (rule scheme_attempt_ok [OF chain2_square]) (simp_all add: r4_def)
    then obtain b t where
      att: "attempt (scheme_node double Diffusive chain2 r4 (Num 0) 2) 1000 2 (fixed_rnd i)
          = Inr (b, t)"
      by blast
    from fixed_finite [OF att] att show ?thesis
      by blast
  qed
  from ok [of 1] obtain buf t where
    att1: "attempt (scheme_node double Diffusive chain2 r4 (Num 0) 2) 1000 2 (fixed_rnd 1)
          = Inr (buf, t)" and
    fin1: "finite_couplings double chain2 r4 2 1000 buf"
    by blast
  have same: "fixed_rnd c = fixed_rnd 1" for c
    by (simp add: fixed_rnd_def fun_eq_iff)
  have "\<exists>out. scheme_calc double Diffusive 1000 r4 chain2 (Num 0) 2 fixed_rnd = Inr out"
    by (rule scheme_calc_ok [OF chain2_square]) (simp_all add: r4_def)
  then obtain out where
    out: "scheme_calc double Diffusive 1000 r4 chain2 (Num 0) 2 fixed_rnd = Inr out"
    by blast
  from scheme_calc_attempt [OF out] obtain c t' where
    att: "attempt (scheme_node double Diffusive chain2 r4 (Num 0) 2) 1000 2 (fixed_rnd c)
            = Inr (out, t')"
    by blast
  with att1 same [of c] have eq: "buf = out"
    by simp
  have row0: "out ! 0 = [Num (3 / 4), Num (3 / 4)]"
    by (rule fixed_rows [OF att]) simp
  then have reach: "reached out 0 1"
    by (simp add: reached_def stuck_def)
  have num: "is_num (coupling double Diffusive chain2 r4 2 (out ! 0) 1)"
    using coupling_fixed_row(1) by (simp add: row0)
  have "2 \<le> length r4"
    by (simp add: r4_def)
  then have hyp: "rounding double \<and> square chain2 2 \<and> 2 \<le> length r4
      \<and> list_all (is_double double) r4"
    by (simp add: rounding_double chain2_square r4_double)
  note inst = coupling_off [of double chain2 2 r4 Diffusive 1000 fixed_rnd out 0 1 "fixed_rnd 1"
      buf t]
  from inst hyp out reach num
  have "out ! 1 ! 1 = logistic double (r4 ! 1) (out ! 0 ! 1)"
    by simp
  moreover have "logistic double (r4 ! 1) (out ! 0 ! 1) = Num (3 / 4)"
    using logistic_fixed [of 1] by (simp add: row0 r4_def)
  moreover from inst hyp att1 fin1
  have "attempt (scheme_node double Kaneko chain2 r4 (Num 0) 2) 1000 2 (fixed_rnd 1)
      = Inr (buf, t)"
    by simp
  moreover from inst hyp ok
  have "diffusivecalc double 1000 r4 chain2 (Num 0) 2 fixed_rnd
      = kanekocalc double 1000 r4 chain2 (Num 0) 2 fixed_rnd"
    by simp
  ultimately show ?thesis
    using out att1 fin1 reach num eq by auto
qed

subsection \<open>The length of the parameter sequence\<close>

lemma diffusive_sum_error: "diffusive_sum fl A x k ls s d = Inl e \<Longrightarrow> e = IndexError"
  by (induction ls arbitrary: s d) (auto simp: A_at_def split: sum.splits if_splits)

lemma kaneko_sum_error: "kaneko_sum fl A r x k ls s d = Inl e \<Longrightarrow> e = IndexError"
  by (induction ls arbitrary: s d) (auto simp: A_at_def split: sum.splits if_splits)

lemma scheme_node_short:
  assumes "\<not> k < length r"
  shows "scheme_node fl scheme A r sigma N x k = Inl IndexError"
proof (cases scheme)
  case Diffusive
  show ?thesis
  proof (cases "diffusive_sum fl A x k [0..<N] (Num 0) 0")
    case (Inl e)
    with diffusive_sum_error [OF Inl] Diffusive show ?thesis
      by (simp add: diffusive_node_def)
  next
    case (Inr p)
    with assms Diffusive show ?thesis
      by (cases p) (simp add: diffusive_node_def next_value_def)
  qed
next
  case Kaneko
  show ?thesis
  proof (cases "kaneko_sum fl A r x k [0..<N] (Num 0) 0")
    case (Inl e)
    with kaneko_sum_error [OF Inl] Kaneko show ?thesis
      by (simp add: kaneko_node_def)
  next
    case (Inr p)
    with assms Kaneko show ?thesis
      by (cases p) (simp add: kaneko_node_def next_value_def)
  qed
qed

lemma node_loop_raises:
  "(\<And>k. k \<in> set pre \<Longrightarrow> \<exists>v. upd x k = Inr v) \<Longrightarrow>
   (\<And>k. k \<in> set pre \<Longrightarrow> x ! k \<noteq> Num 0) \<Longrightarrow> upd x j = Inl e \<Longrightarrow>
   node_loop upd x (pre @ j # post) new t = Inl e"
proof (induction pre arbitrary: new)
  case Nil
  then show ?case by simp
next
  case (Cons k pre)
  from Cons.prems(1) [of k] obtain v where v: "upd x k = Inr v"
    by auto
  have nz: "x ! k \<noteq> Num 0"
    by (rule Cons.prems(2)) simp
  have "node_loop upd x (pre @ j # post) (new[k := v]) t = Inl e"
    by (rule Cons.IH) (simp_all add: Cons.prems)
  with v nz show ?case
    by simp
qed

lemma upt_split: "j < N \<Longrightarrow> [0..<N] = [0..<j] @ j # [Suc j..<N]"
  using upt_add_eq_append [of 0 j "N - j"] by (simp add: upt_conv_Cons)

lemma attempt_raises:
  assumes ok: "\<And>x k. k < j \<Longrightarrow> \<exists>v. upd x k = Inr v"
    and bad: "\<And>x. upd x j = Inl e" and j: "j < N"
    and steps: "0 < ts + 10000" and nz: "\<forall>k<N. draw k \<noteq> 0"
  shows "attempt upd ts N draw = Inl e"
proof -
  let ?row0 = "map (\<lambda>k. Num (draw k)) [0..<N]"
  let ?out0 = "(replicate (nat (ts + 10001)) (replicate N NaN))[0 := ?row0]"
  have a: "alloc ts N draw = Inr ?out0"
    using steps by (simp add: alloc_def)
  have row0: "?out0 ! 0 = ?row0"
    using steps by simp
  have "node_loop upd ?row0 ([0..<j] @ j # [Suc j..<N]) (?out0 ! (0 + 1)) False = Inl e"
  proof (rule node_loop_raises)
    show "\<exists>v. upd ?row0 k = Inr v" if "k \<in> set [0..<j]" for k
      using ok that by simp
    show "?row0 ! k \<noteq> Num 0" if "k \<in> set [0..<j]" for k
      using that j nz by simp
    show "upd ?row0 j = Inl e"
      by (rule bad)
  qed
  then have step: "node_loop upd (?out0 ! 0) [0..<N] (?out0 ! (0 + 1)) False = Inl e"
    using upt_split [OF j] row0 by simp
  have "[0..<nat (ts + 10000)] = 0 # [Suc 0..<nat (ts + 10000)]"
    using steps by (simp add: upt_conv_Cons)
  then have "time_loop upd N [0..<nat (ts + 10000)] ?out0 False = Inl e"
    using step by simp
  with a show ?thesis
    by (simp add: attempt_def)
qed

lemma short_parameter_raises:
  assumes "square A N" and "length r < N" and "0 < ts + 10000" and "\<forall>k<N. rnd 1 k \<noteq> 0"
  shows "scheme_calc fl scheme ts r A sigma N rnd = Inl IndexError"
proof -
  have "attempt (scheme_node fl scheme A r sigma N) ts N (rnd (0 + 1)) = Inl IndexError"
  proof (rule attempt_raises [where j = "length r"])
    show "\<exists>v. scheme_node fl scheme A r sigma N x k = Inr v" if "k < length r" for x k
      using scheme_node_ok [OF assms(1) _ that] that assms(2) by simp
    show "scheme_node fl scheme A r sigma N x (length r) = Inl IndexError" for x
      by (rule scheme_node_short) simp
    show "length r < N" by (rule assms(2))
    show "0 < ts + 10000" by (rule assms(3))
    show "\<forall>k<N. rnd (0 + 1) k \<noteq> 0" using assms(4) by simp
  qed
  from calc_loop_error [of "scheme_node fl scheme A r sigma N" ts N rnd 0 IndexError, OF this]
  show ?thesis
    by (simp add: scheme_calc_eq)
qed

lemma long_parameter_prefix:
  assumes "square A N" and "N \<le> length r"
  shows "scheme_calc fl scheme ts r A sigma N rnd
     = scheme_calc fl scheme ts (take N r) A sigma N rnd"
proof -
  have node: "scheme_node fl scheme A r sigma N x k
      = scheme_node fl scheme A (take N r) sigma N x k" if "k < N" for x k
  proof -
    have kr: "k < length r" "k < length (take N r)"
      using that assms(2) by simp_all
    have "coupling_step fl scheme (take N r) x k = coupling_step fl scheme r x k"
      using that by (cases scheme) (auto simp: fun_eq_iff)
    then show ?thesis
      using scheme_sum [OF assms(1) that kr(1), of fl scheme sigma x]
        scheme_sum [OF assms(1) that kr(2), of fl scheme sigma x] that kr
      by (simp add: next_value_def)
  qed
  have "attempt (scheme_node fl scheme A r sigma N) ts N draw
      = attempt (scheme_node fl scheme A (take N r) sigma N) ts N draw" for draw
    using time_loop_cong_all [of N "scheme_node fl scheme A r sigma N"
        "scheme_node fl scheme A (take N r) sigma N", OF node]
    by (simp add: attempt_def split: sum.splits)
  from calc_loop_cong [of "scheme_node fl scheme A r sigma N" ts N
      "scheme_node fl scheme A (take N r) sigma N" rnd 0, OF this]
  show ?thesis
    by (simp add: scheme_calc_eq)
qed

text \<open>What the call does once \<^verbatim>\<open>r\<close> is settled, for any string given as coupling type.\<close>

lemma coupledlogistic_resolved:
  assumes "square A N" and "2 \<le> N"
    and "resolve_r fl r1 N = resolve_r fl r2 N"
  shows "coupledlogistic fl ts r1 A sigma ct rnd = coupledlogistic fl ts r2 A sigma ct rnd"
proof -
  have "length (A ! 1) = N"
    using assms(1,2) by (simp add: square_def list_all_length)
  then show ?thesis
    using assms(3) by (simp add: coupledlogistic_def)
qed

lemma coupledlogistic_TypeError:
  assumes "square A N" and "2 \<le> N"
  shows "coupledlogistic fl ts ROther A sigma ct rnd = Inl TypeError"
proof -
  have "length A = N"
    using assms(1) by (simp add: square_def)
  then show ?thesis
    using square_not_ragged [OF assms(1)] assms(2) by (simp add: coupledlogistic_def)
qed

text \<open>
  Claim C9 as stated fails: a sequence of three parameters for two nodes is neither of
  length 1 nor of length \<open>N\<close>, and the call raises nothing.
\<close>

theorem long_parameter_accepted:
  "\<not> isl (coupledlogistic double 1000 r444 chain2 (Num (1 / 4)) ''diffusive'' half_rnd)"
proof -
  have res: "resolve_r double r444 2 = Inr [Num 4, Num 4, Num 4]"
    by (simp add: r444_def)
  have "\<exists>raw out. scheme_calc double Diffusive 1000 [Num 4, Num 4, Num 4] chain2 (Num (1 / 4)) 2
              half_rnd = Inr raw
           \<and> coupledlogistic double 1000 r444 chain2 (Num (1 / 4)) (scheme_name Diffusive)
               half_rnd = Inr out
           \<and> postprocess double 2 raw = Inr out
           \<and> int (length out) = 1000 - 1 \<and> (\<forall>rw \<in> set out. length rw = 2)"
    by (rule coupledlogistic_returns [OF chain2_square _ res]) simp_all
  then show ?thesis
    by auto
qed

text \<open>
  Claim C9, amended. On a square matrix of \<open>N \<ge> 2\<close> nodes: a Python \<^verbatim>\<open>float\<close>, a Python \<^verbatim>\<open>int\<close>
  within the range of the doubles and a sequence of length 1 are spread over the \<open>N\<close>
  nodes (the call does what it does on the sequence of \<open>N\<close> copies of \<open>1.0\<cdot>r\<close>); a scalar
  of any other type (a numpy scalar, a \<^verbatim>\<open>bool\<close>) makes the call fail with \<^verbatim>\<open>TypeError\<close>; a
  sequence of length \<open>N\<close> is handed to the engine as it is. No length is checked. A longer
  sequence is accepted, and the call does what it does on the first \<open>N\<close> entries. A shorter
  one (empty, or of a length from 2 to \<open>N - 1\<close>) makes the call fail with \<^verbatim>\<open>IndexError\<close>, in
  the first time step of the first attempt, when the entry after the last one is read;
  this is stated for a first draw without a zero, since a zero could end the loop over
  the nodes before that entry is read.
\<close>

theorem parameter_lengths:
  assumes "square A N" and "2 \<le> N"
  shows "(is_num (fl (of_int i)) \<longrightarrow>
            coupledlogistic fl tslength (RInt i) A sigma ct rnd
              = coupledlogistic fl tslength
                  (RSeq (replicate N (fmul fl (Num 1) (fl (of_int i))))) A sigma ct rnd)
     \<and> coupledlogistic fl tslength (RFloat v) A sigma ct rnd
         = coupledlogistic fl tslength (RSeq (replicate N (fmul fl (Num 1) v))) A sigma ct rnd
     \<and> coupledlogistic fl tslength (RSeq [v]) A sigma ct rnd
         = coupledlogistic fl tslength (RSeq (replicate N (fmul fl (Num 1) v))) A sigma ct rnd
     \<and> coupledlogistic fl tslength ROther A sigma ct rnd = Inl TypeError
     \<and> (length same = N \<longrightarrow>
          coupledlogistic fl tslength (RSeq same) A sigma (scheme_name scheme) rnd
            = (case scheme_calc fl scheme tslength same A sigma N rnd of
                 Inl e \<Rightarrow> Inl e
               | Inr out \<Rightarrow> postprocess fl N out))
     \<and> (N < length long \<longrightarrow>
          coupledlogistic fl tslength (RSeq long) A sigma (scheme_name scheme) rnd
            = coupledlogistic fl tslength (RSeq (take N long)) A sigma (scheme_name scheme) rnd)
     \<and> (length short < N \<longrightarrow> length short \<noteq> 1 \<longrightarrow> 0 < tslength + 10000 \<longrightarrow>
          (\<forall>k<N. rnd 1 k \<noteq> 0) \<longrightarrow>
          coupledlogistic fl tslength (RSeq short) A sigma (scheme_name scheme) rnd
            = Inl IndexError)"
proof (intro conjI impI)
  assume "is_num (fl (of_int i))"
  then show "coupledlogistic fl tslength (RInt i) A sigma ct rnd
      = coupledlogistic fl tslength
          (RSeq (replicate N (fmul fl (Num 1) (fl (of_int i))))) A sigma ct rnd"
    using assms(2) by (intro coupledlogistic_resolved [OF assms]) simp
next
  show "coupledlogistic fl tslength (RFloat v) A sigma ct rnd
      = coupledlogistic fl tslength (RSeq (replicate N (fmul fl (Num 1) v))) A sigma ct rnd"
    using assms(2) by (intro coupledlogistic_resolved [OF assms]) simp
next
  show "coupledlogistic fl tslength (RSeq [v]) A sigma ct rnd
      = coupledlogistic fl tslength (RSeq (replicate N (fmul fl (Num 1) v))) A sigma ct rnd"
    using assms(2) by (intro coupledlogistic_resolved [OF assms]) simp
next
  show "coupledlogistic fl tslength ROther A sigma ct rnd = Inl TypeError"
    by (rule coupledlogistic_TypeError [OF assms])
next
  assume "length same = N"
  with assms(2) have "resolve_r fl (RSeq same) N = Inr same"
    by simp
  then show "coupledlogistic fl tslength (RSeq same) A sigma (scheme_name scheme) rnd
      = (case scheme_calc fl scheme tslength same A sigma N rnd of
           Inl e \<Rightarrow> Inl e
         | Inr out \<Rightarrow> postprocess fl N out)"
    by (simp add: coupledlogistic_scheme [OF assms])
next
  assume long: "N < length long"
  with assms(2) have "resolve_r fl (RSeq long) N = Inr long"
    "resolve_r fl (RSeq (take N long)) N = Inr (take N long)"
    by simp_all
  moreover have "scheme_calc fl scheme tslength long A sigma N rnd
      = scheme_calc fl scheme tslength (take N long) A sigma N rnd"
    by (rule long_parameter_prefix [OF assms(1)]) (use long in simp)
  ultimately show "coupledlogistic fl tslength (RSeq long) A sigma (scheme_name scheme) rnd
      = coupledlogistic fl tslength (RSeq (take N long)) A sigma (scheme_name scheme) rnd"
    by (simp add: coupledlogistic_scheme [OF assms])
next
  assume short: "length short < N" "length short \<noteq> 1" and steps: "0 < tslength + 10000"
    and nz: "\<forall>k<N. rnd 1 k \<noteq> 0"
  have "resolve_r fl (RSeq short) N = Inr short"
    using short(2) by simp
  moreover have "scheme_calc fl scheme tslength short A sigma N rnd = Inl IndexError"
    using short_parameter_raises [of A N short tslength rnd fl scheme sigma] assms(1) short(1)
      steps nz
    by simp
  ultimately show "coupledlogistic fl tslength (RSeq short) A sigma (scheme_name scheme) rnd
      = Inl IndexError"
    by (simp add: coupledlogistic_scheme [OF assms])
qed

theorem parameter_lengths_witness:
  "coupledlogistic double 1000 (RInt 4) chain2 (Num (1 / 4)) ''kaneko'' half_rnd
     = coupledlogistic double 1000 (RSeq r4) chain2 (Num (1 / 4)) ''kaneko'' half_rnd
   \<and> coupledlogistic double 1000 (RFloat (Num 4)) chain2 (Num (1 / 4)) ''kaneko'' half_rnd
     = coupledlogistic double 1000 (RSeq r4) chain2 (Num (1 / 4)) ''kaneko'' half_rnd
   \<and> coupledlogistic double 1000 (RSeq [Num 4]) chain2 (Num (1 / 4)) ''kaneko'' half_rnd
     = coupledlogistic double 1000 (RSeq r4) chain2 (Num (1 / 4)) ''kaneko'' half_rnd
   \<and> coupledlogistic double 1000 ROther chain2 (Num (1 / 4)) ''kaneko'' half_rnd
     = Inl TypeError
   \<and> coupledlogistic double 1000 (RSeq r4) chain2 (Num (1 / 4)) ''kaneko'' half_rnd
     = (case kanekocalc double 1000 r4 chain2 (Num (1 / 4)) 2 half_rnd of
          Inl e \<Rightarrow> Inl e
        | Inr out \<Rightarrow> postprocess double 2 out)
   \<and> coupledlogistic double 1000 r444 chain2 (Num (1 / 4)) ''kaneko'' half_rnd
     = coupledlogistic double 1000 (RSeq r4) chain2 (Num (1 / 4)) ''kaneko'' half_rnd
   \<and> coupledlogistic double 1000 (RSeq []) chain2 (Num (1 / 4)) ''kaneko'' half_rnd
     = Inl IndexError"
proof -
  have "(2::nat) \<le> 2"
    by simp
  from parameter_lengths [OF chain2_square this, where fl = double and i = 4 and v = "Num 4"
      and same = r4 and long = "[Num 4, Num 4, Num 4]" and tslength = 1000
      and sigma = "Num (1 / 4)" and scheme = Kaneko and ct = "''kaneko''" and rnd = half_rnd
      and short = "[]"]
  show ?thesis
    by (simp add: r4_def r444_def half_rnd_def numeral_2_eq_2 double_vals)
qed


end
